theory Spec2Isabelle
  imports Main "HOL-Library.Word" "HOL-Library.Log_Nat"
begin

section \<open>Values of the program\<close>

text \<open>
  A Node \<open>Buffer\<close> is a list of bytes. A Topic object, a timer returned by
  \<open>setTimeout\<close> and a stream returned by the DHT are identified by the position at
  which they were created; a caller's callback function by a number of the caller's
  choice.
\<close>

type_synonym buffer = "8 word list"
type_synonym tref = nat
type_synonym handle = nat
type_synonym cbid = nat

subsection \<open>\<open>Buffer.toString('hex')\<close>\<close>

definition hex_digit :: "nat \<Rightarrow> char" where
  "hex_digit n = ''0123456789abcdef'' ! (n mod 16)"

definition hex_byte :: "8 word \<Rightarrow> string" where
  "hex_byte b = [hex_digit (unat b div 16), hex_digit (unat b mod 16)]"

definition to_hex :: "buffer \<Rightarrow> string" where
  "to_hex bs = concat (map hex_byte bs)"

text \<open>\<open>key.slice(0, 20)\<close>: the first 20 bytes, or the whole key when it is shorter.\<close>

definition slice_0_20 :: "buffer \<Rightarrow> buffer" where
  "slice_0_20 k = take 20 k"

subsection \<open>JavaScript numbers: rounding to binary64\<close>

text \<open>
  \<open>Math.random() * wait\<close> and \<open>wait + _\<close> are IEEE 754 binary64 operations: the exact
  result, rounded to the nearest representable number, ties to the even significand.
  The model covers the non-negative finite range (no overflow occurs below
  \<open>2 ^ 1024\<close>); a rational stands for the number it denotes.
  \<open>exponent x\<close> is the \<open>e\<close> with \<open>2 ^ e \<le> x < 2 ^ (e + 1)\<close>; a binary64 number with that
  exponent is a multiple of \<open>2 ^ (e - 52)\<close>, and of \<open>2 ^ - 1074\<close> in the subnormal range.
\<close>

definition round_even :: "rat \<Rightarrow> int" where
  "round_even x =
     (let f = \<lfloor>x\<rfloor>; d = x - of_int f
      in if d < 1 / 2 then f else if 1 / 2 < d then f + 1 else if even f then f else f + 1)"

definition exponent :: "rat \<Rightarrow> int" where
  "exponent x = (if 1 \<le> x then bitlen \<lfloor>x\<rfloor> - 1 else - bitlen (\<lceil>1 / x\<rceil> - 1))"

definition pow2 :: "int \<Rightarrow> rat" where
  "pow2 k = (if 0 \<le> k then 2 ^ nat k else 1 / 2 ^ nat (- k))"

definition fl :: "rat \<Rightarrow> rat" where
  "fl x =
     (if x \<le> 0 then 0
      else let k = min 1074 (52 - exponent x)
           in of_int (round_even (x * pow2 k)) / pow2 k)"

text \<open>
  \<open>_notify (fn, eager)\<close> passes \<open>Math.floor(wait + Math.random() * wait)\<close> to
  \<open>setTimeout\<close>; \<open>r\<close> is the value \<open>Math.random()\<close> returned.
\<close>

definition wait_of :: "bool \<Rightarrow> int" where
  "wait_of eager = (if eager then 30000 else 300000)"

definition notify_delay :: "bool \<Rightarrow> rat \<Rightarrow> int" where
  "notify_delay eager r =
     (let wait = of_int (wait_of eager) in \<lfloor>fl (wait + fl (r * wait))\<rfloor>)"

subsection \<open>Packets of the multicast DNS client, peers, stream data\<close>

text \<open>
  An answer record \<open>{type, name, data}\<close>: the constructor is the \<open>type\<close>. The data of
  an SRV record are \<open>{target, port}\<close>, those of a TXT record an array of buffers. A
  question is \<open>{type, name}\<close>.
\<close>

datatype rr =
    SRV string string nat
  | TXT string "buffer list"
  | OtherRR string string

record question =
  q_type :: string
  q_name :: string

record packet =
  questions :: "question list"
  answers :: "rr list"

type_synonym node = string

record peer =
  p_port :: nat
  p_host :: string
  p_local :: bool
  p_referrer :: "node option"

record dhtdata =
  d_node :: node
  d_localPeers :: "(string \<times> nat) list"
  d_peers :: "(string \<times> nat) list"

subsection \<open>The Topic and Discovery objects\<close>

record announce =
  a_port :: nat
  a_localAddress :: "string option"

text \<open>The \<open>opts\<close> object the Topic constructor receives.\<close>

record topts =
  o_localPort :: "nat option"
  o_lookup :: bool
  o_announce :: "announce option"

text \<open>The \<open>opts\<close> object a caller passes to \<open>announce\<close>.\<close>

record aopts =
  localPort :: "nat option"
  port :: "nat option"
  lookup :: bool
  localAddress :: "string option"

text \<open>
  Listeners. On \<open>'close'\<close>: \<open>done\<close> of \<open>Discovery.destroy\<close> and \<open>onclose\<close> of
  \<open>lookupOne\<close>. On \<open>'peer'\<close>: \<open>onpeer\<close> of \<open>lookupOne\<close> (registered with \<open>once\<close>), and
  a listener of the caller's that calls \<open>topic.destroy()\<close>, which is what \<open>onpeer\<close>
  itself does. A listener of the caller's that only observes is not modelled: every
  \<open>emit\<close> is written to the trace.
\<close>

datatype close_listener = Done | OnClose cbid

datatype peer_listener = OnPeer cbid | CallerDestroys

record topic =
  t_key :: buffer
  t_announce :: "announce option"
  t_destroyed :: bool
  t_id :: buffer
  t_timeoutDht :: "handle option"
  t_timeoutMdns :: "handle option"
  t_stream :: "handle option"
  t_domain :: string
  t_answer :: "rr option"
  t_on_peer :: "peer_listener list"
  t_on_close :: "close_listener list"

datatype emitted = Peer peer | Update "string option" | Close

text \<open>An entry of the list \<open>ping\<close> calls back with: \<open>{bootstrap, rtt, pong}\<close>.\<close>

record ponged =
  pg_bootstrap :: node
  pg_rtt :: int
  pg_pong :: string

text \<open>
  The arguments of a caller's callback: \<open>cb(err)\<close>, \<open>cb(null, peer)\<close> or
  \<open>cb(null, res)\<close>.
\<close>

datatype result = Failed string | Found peer | Pongs "ponged list"

text \<open>
  The closures the code hands to \<open>process.nextTick\<close> and \<open>setTimeout\<close>: \<open>onclose\<close> of
  \<open>Topic.destroy\<close>, \<open>done\<close> of \<open>Discovery.destroy\<close>, \<open>loop\<close> of \<open>_startDht\<close> and of
  \<open>_startMdns\<close>, and a callback with its error argument.
\<close>

datatype task = EmitClose tref | SessionDone | DhtLoop tref | MdnsLoop tref | Call cbid string

text \<open>What the program does to the outside, in order: events emitted and calls made.\<close>

datatype effect =
    Emit tref emitted
  | SessionClose
  | Callback cbid result
  | DhtAnnounce buffer announce handle
  | DhtLookup buffer handle
  | DhtUnannounce buffer announce
  | DhtHolepunch peer node cbid
  | DhtPing node
  | DhtDestroy
  | StreamDestroy handle
  | MdnsQuery packet
  | MdnsResponse "rr list"
  | MdnsDestroy

datatype error = InstanceDestroyed | TypeError

text \<open>
  The state: the fields of the Discovery object, the Topic objects, the variable
  \<open>missing\<close> of \<open>Discovery.destroy\<close>, and the run-time's queues. \<open>domains\<close> is the
  \<open>Map\<close> from a domain to its \<open>Set\<close> of Topics, both in insertion order; each Set is
  referenced from its Map entry only. \<open>timers\<close> holds at index \<open>h\<close> the closure and the
  class of the timer \<open>h\<close> while it is pending; \<open>streams\<close> holds at index \<open>h\<close> the Topic
  that listens to stream \<open>h\<close> and the variable \<open>called\<close> of that \<open>loop\<close> invocation;
  \<open>unannouncing\<close> lists the Topics whose \<open>unannounce\<close> has not called back yet.
\<close>

record world =
  destroyed :: bool
  tld :: string
  bootstrap :: "node list"
  domains :: "(string \<times> tref list) list"
  topics :: "topic list"
  missing :: int
  ticks :: "task list"
  timers :: "(task \<times> bool) option list"
  streams :: "(tref \<times> bool) list"
  unannouncing :: "tref list"
  trace :: "effect list"

section \<open>The operations\<close>

subsection \<open>The run-time: \<open>process.nextTick\<close>, \<open>setTimeout\<close>, \<open>clearTimeout\<close>, \<open>Map\<close>, \<open>Set\<close>\<close>

definition say :: "effect \<Rightarrow> world \<Rightarrow> world" where
  "say e w = w\<lparr>trace := trace w @ [e]\<rparr>"

definition nextTick :: "task \<Rightarrow> world \<Rightarrow> world" where
  "nextTick f w = w\<lparr>ticks := ticks w @ [f]\<rparr>"

text \<open>
  Node's \<open>process.nextTick(callback)\<close> throws a TypeError when \<open>callback\<close> is not a
  function, and queues nothing.
\<close>

datatype jsvalue = Function task | ErrorObject string

definition process_nextTick :: "jsvalue \<Rightarrow> world \<Rightarrow> error + world" where
  "process_nextTick v w =
     (case v of Function f \<Rightarrow> Inr (nextTick f w) | ErrorObject m \<Rightarrow> Inl TypeError)"

definition setTimeout :: "task \<Rightarrow> bool \<Rightarrow> world \<Rightarrow> handle \<times> world" where
  "setTimeout f eager w = (length (timers w), w\<lparr>timers := timers w @ [Some (f, eager)]\<rparr>)"

definition clearTimeout :: "handle option \<Rightarrow> world \<Rightarrow> world" where
  "clearTimeout ho w =
     (case ho of None \<Rightarrow> w | Some h \<Rightarrow> w\<lparr>timers := (timers w)[h := None]\<rparr>)"

definition map_get :: "string \<Rightarrow> world \<Rightarrow> tref list option" where
  "map_get d w = map_of (domains w) d"

definition map_set :: "string \<Rightarrow> tref list \<Rightarrow> world \<Rightarrow> world" where
  "map_set d s w =
     w\<lparr>domains :=
         (if map_of (domains w) d = None then domains w @ [(d, s)]
          else map (\<lambda>(k, v). if k = d then (k, s) else (k, v)) (domains w))\<rparr>"

definition map_delete :: "string \<Rightarrow> world \<Rightarrow> world" where
  "map_delete d w = w\<lparr>domains := filter (\<lambda>(k, v). k \<noteq> d) (domains w)\<rparr>"

definition set_add :: "tref \<Rightarrow> tref list \<Rightarrow> tref list" where
  "set_add t s = (if t \<in> set s then s else s @ [t])"

definition set_delete :: "tref \<Rightarrow> tref list \<Rightarrow> tref list" where
  "set_delete t s = removeAll t s"

definition upd_topic :: "tref \<Rightarrow> (topic \<Rightarrow> topic) \<Rightarrow> world \<Rightarrow> world" where
  "upd_topic t f w = w\<lparr>topics := (topics w)[t := f (topics w ! t)]\<rparr>"

text \<open>A loop whose body may throw: the exception ends it.\<close>

fun for_each :: "('a \<Rightarrow> world \<Rightarrow> error + world) \<Rightarrow> 'a list \<Rightarrow> world \<Rightarrow> error + world" where
  "for_each f [] w = Inr w"
| "for_each f (x # xs) w = (case f x w of Inl e \<Rightarrow> Inl e | Inr w' \<Rightarrow> for_each f xs w')"

text \<open>
  \<open>for (const topic of set)\<close> over the Set of domain \<open>d\<close>, while the body may delete
  Topics from that Set (it never adds one): the iterator visits the elements in
  insertion order and passes over one that was deleted before its turn. \<open>ts\<close> is the
  Set as it was when the loop started.
\<close>

fun for_topics :: "string \<Rightarrow> (tref \<Rightarrow> world \<Rightarrow> error + world) \<Rightarrow> tref list \<Rightarrow> world
    \<Rightarrow> error + world" where
  "for_topics d f [] w = Inr w"
| "for_topics d f (t # ts) w =
     (if t \<in> set (case map_get d w of None \<Rightarrow> [] | Some s \<Rightarrow> s)
      then (case f t w of Inl e \<Rightarrow> Inl e | Inr w' \<Rightarrow> for_topics d f ts w')
      else for_topics d f ts w)"

subsection \<open>\<open>Discovery._domain\<close>, \<open>Discovery._notify\<close>, the constructor\<close>

definition domain_of :: "world \<Rightarrow> buffer \<Rightarrow> string" where
  "domain_of w key = to_hex (slice_0_20 key) @ tld w"

text \<open>
  \<open>_notify\<close>: the delay is \<open>notify_delay eager r\<close> for the draw \<open>r\<close> of \<open>Math.random()\<close>;
  the state keeps the class of the timer only, since a pending timer may fire at any
  later moment.
\<close>

definition notify :: "task \<Rightarrow> bool \<Rightarrow> world \<Rightarrow> handle \<times> world" where
  "notify f eager w = setTimeout f eager w"

record dopts =
  opt_domain :: "string option"
  opt_bootstrap :: "node list option"
  opt_ephemeral :: "bool option"

text \<open>
  \<open>opts.domain || 'hyperswarm.local'\<close>: the empty string is falsy. \<open>this._bootstrap\<close> is
  read from the DHT client, which is outside the repository: \<open>nodes\<close> is what it holds.
\<close>

definition domain_suffix :: "dopts option \<Rightarrow> string" where
  "domain_suffix opts =
     (case opts of None \<Rightarrow> ''hyperswarm.local''
      | Some o1 \<Rightarrow> (case opt_domain o1 of None \<Rightarrow> ''hyperswarm.local''
          | Some d \<Rightarrow> if d = [] then ''hyperswarm.local'' else d))"

definition new_Discovery :: "dopts option \<Rightarrow> node list \<Rightarrow> world" where
  "new_Discovery opts nodes =
     \<lparr>destroyed = False, tld = ''.'' @ domain_suffix opts, bootstrap = nodes,
      domains = [], topics = [], missing = 0, ticks = [], timers = [], streams = [],
      unannouncing = [], trace = []\<rparr>"

subsection \<open>Topic\<close>

text \<open>\<open>loop\<close> of \<open>_startDht\<close>, which \<open>_startDht\<close> calls at once.\<close>

definition dht_loop :: "tref \<Rightarrow> world \<Rightarrow> world" where
  "dht_loop t w =
     (let tp = topics w ! t;
          h = length (streams w);
          w1 = say (case t_announce tp of Some ann \<Rightarrow> DhtAnnounce (t_key tp) ann h
                    | None \<Rightarrow> DhtLookup (t_key tp) h) w;
          w2 = w1\<lparr>streams := streams w1 @ [(t, False)]\<rparr>
      in upd_topic t (\<lambda>x. x\<lparr>t_timeoutDht := None, t_stream := Some h\<rparr>) w2)"

definition startDht :: "tref \<Rightarrow> world \<Rightarrow> world" where
  "startDht t w = dht_loop t w"

text \<open>\<open>done\<close> of the \<open>loop\<close> invocation that opened stream \<open>h\<close>.\<close>

definition dht_done :: "handle \<Rightarrow> string option \<Rightarrow> world \<Rightarrow> world" where
  "dht_done h err w =
     (let t = fst (streams w ! h) in
      if snd (streams w ! h) \<or> t_destroyed (topics w ! t) then w
      else
        let w1 = upd_topic t (\<lambda>x. x\<lparr>t_stream := None\<rparr>) w;
            w2 = w1\<lparr>streams := (streams w1)[h := (t, True)]\<rparr>;
            w3 = say (Emit t (Update err)) w2;
            (th, w4) = notify (DhtLoop t) False w3
        in upd_topic t (\<lambda>x. x\<lparr>t_timeoutDht := Some th\<rparr>) w4)"

text \<open>\<open>loop\<close> of \<open>_startMdns\<close>, which \<open>_startMdns\<close> calls at once.\<close>

definition mdns_loop :: "tref \<Rightarrow> world \<Rightarrow> world" where
  "mdns_loop t w =
     (let tp = topics w ! t;
          query = \<lparr>questions = [\<lparr>q_type = ''SRV'', q_name = t_domain tp\<rparr>],
                   answers = [TXT (t_domain tp) [t_id tp]]\<rparr>;
          w1 = say (MdnsQuery query) w;
          (th, w2) = notify (MdnsLoop t) True w1
      in upd_topic t (\<lambda>x. x\<lparr>t_timeoutMdns := Some th\<rparr>) w2)"

definition startMdns :: "tref \<Rightarrow> world \<Rightarrow> world" where
  "startMdns t w = mdns_loop t w"

definition stopDht :: "tref \<Rightarrow> world \<Rightarrow> world" where
  "stopDht t w =
     (let w1 = clearTimeout (t_timeoutDht (topics w ! t)) w;
          w2 = upd_topic t (\<lambda>x. x\<lparr>t_timeoutDht := None\<rparr>) w1
      in case t_stream (topics w2 ! t) of None \<Rightarrow> w2 | Some h \<Rightarrow> say (StreamDestroy h) w2)"

text \<open>
  The constructor. \<open>rnd\<close> is what \<open>crypto.randomBytes(32)\<close> returned. The new object is
  the Topic number \<open>length (topics w)\<close>.
\<close>

definition id_prefix :: buffer where
  "id_prefix = [0x69, 0x64, 0x3D]"

definition new_Topic :: "buffer \<Rightarrow> topts option \<Rightarrow> buffer \<Rightarrow> world \<Rightarrow> tref \<times> world" where
  "new_Topic key opts0 rnd w =
     (let opts = (case opts0 of None \<Rightarrow> \<lparr>o_localPort = None, o_lookup = False, o_announce = None\<rparr>
                  | Some o1 \<Rightarrow> o1);
          port = (case o_localPort opts of None \<Rightarrow> 0 | Some n \<Rightarrow> n);
          name = domain_of w key;
          t = length (topics w);
          this = \<lparr>t_key = key, t_announce = o_announce opts, t_destroyed = False,
                  t_id = id_prefix @ rnd, t_timeoutDht = None, t_timeoutMdns = None,
                  t_stream = None, t_domain = name,
                  t_answer = (if port \<noteq> 0 then Some (SRV name ''0.0.0.0'' port) else None),
                  t_on_peer = [], t_on_close = []\<rparr>;
          w1 = startDht t (w\<lparr>topics := topics w @ [this]\<rparr>)
      in (t, if o_announce opts = None \<or> o_lookup opts then startMdns t w1 else w1))"

definition topic_update :: "tref \<Rightarrow> world \<Rightarrow> world" where
  "topic_update t w =
     (if t_destroyed (topics w ! t) then w
      else
        let w1 = (case t_timeoutDht (topics w ! t) of None \<Rightarrow> w
                  | Some h \<Rightarrow> startDht t (upd_topic t (\<lambda>x. x\<lparr>t_timeoutDht := None\<rparr>)
                                  (clearTimeout (Some h) w)));
            w2 = clearTimeout (t_timeoutMdns (topics w1 ! t)) w1
        in startMdns t w2)"

text \<open>
  \<open>Topic.destroy\<close>. \<open>set.delete\<close> on the \<open>undefined\<close> that \<open>Map.get\<close> returns for a missing
  domain throws a TypeError.
\<close>

definition topic_destroy :: "tref \<Rightarrow> world \<Rightarrow> error + world" where
  "topic_destroy t w =
     (if t_destroyed (topics w ! t) then Inr w
      else
        let w1 = upd_topic t (\<lambda>x. x\<lparr>t_destroyed := True\<rparr>) w;
            w2 = stopDht t w1;
            w3 = clearTimeout (t_timeoutMdns (topics w2 ! t)) w2;
            this = topics w3 ! t
        in case map_get (t_domain this) w3 of
             None \<Rightarrow> Inl TypeError
           | Some s \<Rightarrow>
               let s' = set_delete t s;
                   w4 = map_set (t_domain this) s' w3;
                   w5 = (if s' = [] then map_delete (t_domain this) w4 else w4)
               in (case t_announce this of
                     None \<Rightarrow> process_nextTick (Function (EmitClose t)) w5
                   | Some ann \<Rightarrow>
                       Inr ((say (DhtUnannounce (t_key this) ann) w5)
                              \<lparr>unannouncing := unannouncing w5 @ [t]\<rparr>)))"

subsection \<open>Emitting events\<close>

text \<open>\<open>done\<close> of \<open>Discovery.destroy\<close>.\<close>

definition session_done :: "world \<Rightarrow> world" where
  "session_done w =
     (let w1 = w\<lparr>missing := missing w - 1\<rparr>
      in if missing w1 \<noteq> 0 then w1 else say SessionClose (say DhtDestroy w1))"

fun run_close_listener :: "close_listener \<Rightarrow> world \<Rightarrow> world" where
  "run_close_listener Done w = session_done w"
| "run_close_listener (OnClose cb) w = say (Callback cb (Failed ''Lookup failed'')) w"

text \<open>
  \<open>emit\<close> calls the listeners that are registered when it starts, in the order of
  their registration.
\<close>

definition emit_close :: "tref \<Rightarrow> world \<Rightarrow> world" where
  "emit_close t w =
     fold run_close_listener (t_on_close (topics w ! t)) (say (Emit t Close) w)"

text \<open>
  \<open>onpeer\<close> of \<open>lookupOne\<close> was registered with \<open>once\<close>: its wrapper removes itself, then
  \<open>onpeer\<close> removes \<open>onclose\<close>, destroys the Topic and calls back.
\<close>

fun run_peer_listener :: "tref \<Rightarrow> peer \<Rightarrow> peer_listener \<Rightarrow> world \<Rightarrow> error + world" where
  "run_peer_listener t p (OnPeer cb) w =
     (let w1 = upd_topic t (\<lambda>x. x\<lparr>t_on_peer := remove1 (OnPeer cb) (t_on_peer x)\<rparr>) w;
          w2 = upd_topic t (\<lambda>x. x\<lparr>t_on_close := remove1 (OnClose cb) (t_on_close x)\<rparr>) w1
      in case topic_destroy t w2 of
           Inl e \<Rightarrow> Inl e
         | Inr w3 \<Rightarrow> Inr (say (Callback cb (Found p)) w3))"
| "run_peer_listener t p CallerDestroys w = topic_destroy t w"

definition emit_peer :: "tref \<Rightarrow> peer \<Rightarrow> world \<Rightarrow> error + world" where
  "emit_peer t p w =
     for_each (run_peer_listener t p) (t_on_peer (topics w ! t)) (say (Emit t (Peer p)) w)"

definition ondhtdata :: "tref \<Rightarrow> dhtdata \<Rightarrow> world \<Rightarrow> error + world" where
  "ondhtdata t d w =
     (if t_destroyed (topics w ! t) then Inr w
      else
        case for_each (\<lambda>(h, p). emit_peer t
                \<lparr>p_port = p, p_host = h, p_local = True, p_referrer = None\<rparr>) (d_localPeers d) w of
          Inl e \<Rightarrow> Inl e
        | Inr w1 \<Rightarrow>
            for_each (\<lambda>(h, p). emit_peer t
                \<lparr>p_port = p, p_host = h, p_local = False, p_referrer = Some (d_node d)\<rparr>)
              (d_peers d) w1)"

subsection \<open>Discovery\<close>

text \<open>\<open>_topic\<close>: the Topic is constructed first, then put into the Set of its domain.\<close>

definition topic_of :: "buffer \<Rightarrow> topts option \<Rightarrow> buffer \<Rightarrow> world \<Rightarrow> tref \<times> world" where
  "topic_of key ann rnd w =
     (let (t, w1) = new_Topic key ann rnd w;
          d = domain_of w1 key;
          w2 = (if map_get d w1 = None then map_set d [] w1 else w1);
          s = (case map_get d w2 of None \<Rightarrow> [] | Some s \<Rightarrow> s)
      in (t, map_set d (set_add t s) w2))"

definition lookup_topic :: "buffer \<Rightarrow> buffer \<Rightarrow> world \<Rightarrow> error + tref \<times> world" where
  "lookup_topic key rnd w =
     (if destroyed w then Inl InstanceDestroyed else Inr (topic_of key None rnd w))"

text \<open>\<open>a || b || 0\<close> on port numbers: \<open>undefined\<close> and \<open>0\<close> are falsy.\<close>

definition or_else :: "nat option \<Rightarrow> nat \<Rightarrow> nat" where
  "or_else a b = (case a of None \<Rightarrow> b | Some n \<Rightarrow> if n = 0 then b else n)"

definition announce_topic :: "buffer \<Rightarrow> aopts \<Rightarrow> buffer \<Rightarrow> world \<Rightarrow> error + tref \<times> world" where
  "announce_topic key opts rnd w =
     (if destroyed w then Inl InstanceDestroyed
      else Inr (topic_of key
        (Some \<lparr>o_localPort = Some (or_else (localPort opts) (or_else (port opts) 0)),
               o_lookup = lookup opts,
               o_announce = Some \<lparr>a_port = or_else (port opts) 0,
                                  a_localAddress = localAddress opts\<rparr>\<rparr>) rnd w))"

definition lookupOne :: "buffer \<Rightarrow> cbid \<Rightarrow> buffer \<Rightarrow> world \<Rightarrow> error + world" where
  "lookupOne key cb rnd w =
     (case lookup_topic key rnd w of
        Inl e \<Rightarrow> Inl e
      | Inr (t, w1) \<Rightarrow>
          Inr (upd_topic t (\<lambda>x. x\<lparr>t_on_peer := t_on_peer x @ [OnPeer cb]\<rparr>)
                (upd_topic t (\<lambda>x. x\<lparr>t_on_close := t_on_close x @ [OnClose cb]\<rparr>) w1)))"

definition holepunch :: "peer \<Rightarrow> cbid \<Rightarrow> world \<Rightarrow> error + world" where
  "holepunch p cb w =
     (case p_referrer p of
        None \<Rightarrow> process_nextTick (ErrorObject ''Referrer needed to holepunch'') w
      | Some r \<Rightarrow> Inr (say (DhtHolepunch p r cb) w))"

text \<open>
  \<open>Discovery.destroy\<close>. The two loops run over the Map and its Sets while
  \<open>topic.destroy()\<close> deletes from them: an entry or an element that is gone when its
  turn comes is passed over.
\<close>

definition destroy_topic :: "tref \<Rightarrow> world \<Rightarrow> error + world" where
  "destroy_topic t w =
     (case topic_destroy t (w\<lparr>missing := missing w + 1\<rparr>) of
        Inl e \<Rightarrow> Inl e
      | Inr w1 \<Rightarrow> Inr (upd_topic t (\<lambda>x. x\<lparr>t_on_close := t_on_close x @ [Done]\<rparr>) w1))"

definition destroy_set :: "string \<Rightarrow> world \<Rightarrow> error + world" where
  "destroy_set d w =
     (case map_get d w of None \<Rightarrow> Inr w | Some s \<Rightarrow> for_topics d destroy_topic s w)"

definition discovery_destroy :: "world \<Rightarrow> error + world" where
  "discovery_destroy w =
     (if destroyed w then Inr w
      else
        let w1 = say MdnsDestroy (w\<lparr>destroyed := True, missing := 1\<rparr>)
        in case for_each destroy_set (map fst (domains w1)) w1 of
             Inl e \<Rightarrow> Inl e
           | Inr w2 \<Rightarrow> process_nextTick (Function SessionDone) w2)"

subsection \<open>The multicast handlers\<close>

fun getId :: "rr list \<Rightarrow> string \<Rightarrow> buffer option" where
  "getId [] name = None"
| "getId (TXT n (b # bs) # as) name = (if n = name then Some b else getId as name)"
| "getId (a # as) name = getId as name"

definition onmdnsresponse :: "packet \<Rightarrow> string \<Rightarrow> world \<Rightarrow> error + world" where
  "onmdnsresponse res address w =
     for_each (\<lambda>a w.
        case a of
          SRV name target prt \<Rightarrow>
            (case map_get name w of
               None \<Rightarrow> Inr w
             | Some s \<Rightarrow>
                 let host = (if target = ''0.0.0.0'' then address else target)
                 in for_topics name (\<lambda>t. emit_peer t
                      \<lparr>p_port = prt, p_host = host, p_local = True, p_referrer = None\<rparr>) s w)
        | _ \<Rightarrow> Inr w) (answers res) w"

text \<open>
  \<open>_onmdnsquery\<close>: the inner loop pushes to \<open>r.answers\<close>, the outer one runs over the
  questions; \<open>mdns.response(r)\<close> is called after them.
\<close>

fun answer_topics :: "world \<Rightarrow> buffer option \<Rightarrow> tref list \<Rightarrow> rr list \<Rightarrow> rr list" where
  "answer_topics w ident [] r = r"
| "answer_topics w ident (t # ts) r =
     (if ident \<noteq> None \<and> Some (t_id (topics w ! t)) = ident then answer_topics w ident ts r
      else case t_answer (topics w ! t) of
             Some a \<Rightarrow> answer_topics w ident ts (r @ [a])
           | None \<Rightarrow> answer_topics w ident ts r)"

fun answer_questions :: "world \<Rightarrow> packet \<Rightarrow> question list \<Rightarrow> rr list \<Rightarrow> rr list" where
  "answer_questions w res [] r = r"
| "answer_questions w res (q # qs) r =
     (case (if q_type q = ''SRV'' then map_get (q_name q) w else None) of
        None \<Rightarrow> answer_questions w res qs r
      | Some s \<Rightarrow>
          answer_questions w res qs (answer_topics w (getId (answers res) (q_name q)) s r))"

definition onmdnsquery :: "packet \<Rightarrow> world \<Rightarrow> world" where
  "onmdnsquery res w = say (MdnsResponse (answer_questions w res (questions res) [])) w"

subsection \<open>\<open>Discovery.ping\<close>\<close>

text \<open>
  The variables of one \<open>ping\<close> call that its callbacks share: \<open>res\<close>, \<open>missing\<close>,
  \<open>start\<close>, and the caller's \<open>cb\<close>. \<open>now\<close> is what \<open>Date.now()\<close> returned.
\<close>

record pinging =
  pi_res :: "ponged list"
  pi_missing :: int
  pi_start :: int
  pi_cb :: cbid

definition ping :: "cbid \<Rightarrow> int \<Rightarrow> world \<Rightarrow> pinging option \<times> world" where
  "ping cb now w =
     (let len = length (bootstrap w) in
      if len = 0 then (None, nextTick (Call cb ''No bootstrap nodes available'') w)
      else (Some \<lparr>pi_res = [], pi_missing = int len, pi_start = now, pi_cb = cb\<rparr>,
            fold (\<lambda>b. say (DhtPing b)) (bootstrap w) w))"

text \<open>The callback \<open>ping\<close> gave to \<open>dht.ping\<close> for the node \<open>b\<close>, called with \<open>(_, pong)\<close>.\<close>

definition ping_reply :: "node \<Rightarrow> string option \<Rightarrow> int \<Rightarrow> pinging \<times> world \<Rightarrow> pinging \<times> world" where
  "ping_reply b pong now pw =
     (let (ps, w) = pw;
          ps1 = (case pong of
                   Some pg \<Rightarrow> ps\<lparr>pi_res := pi_res ps @
                       [\<lparr>pg_bootstrap = b, pg_rtt = now - pi_start ps, pg_pong = pg\<rparr>]\<rparr>
                 | None \<Rightarrow> ps);
          ps2 = ps1\<lparr>pi_missing := pi_missing ps1 - 1\<rparr>
      in if pi_missing ps2 \<noteq> 0 then (ps2, w)
         else if pi_res ps2 = []
           then (ps2, say (Callback (pi_cb ps2) (Failed ''All bootstrap nodes failed'')) w)
         else (ps2, say (Callback (pi_cb ps2) (Pongs (pi_res ps2))) w))"

text \<open>The replies of the DHT, in the order in which they arrive.\<close>

fun ping_replies :: "(node \<times> string option \<times> int) list \<Rightarrow> pinging \<times> world \<Rightarrow> pinging \<times> world" where
  "ping_replies [] pw = pw"
| "ping_replies ((b, pong, now) # rs) pw = ping_replies rs (ping_reply b pong now pw)"

section \<open>The event loop\<close>

text \<open>
  What happens to a session, one entry at a time: a call by the caller, or a callback
  of the run-time, the DHT or the multicast client. Callbacks may arrive in any order.
\<close>

datatype input =
    Announce buffer aopts buffer
  | Lookup buffer buffer
  | LookupOne buffer cbid buffer
  | TopicUpdate tref
  | TopicDestroy tref
  | OnPeerDestroy tref
  | Destroy
  | Tick
  | Timeout handle
  | StreamData handle dhtdata
  | StreamError handle string
  | StreamEnd handle
  | Unannounced tref
  | QueryIn packet
  | ResponseIn packet string

fun run_task :: "task \<Rightarrow> world \<Rightarrow> world" where
  "run_task (EmitClose t) w = emit_close t w"
| "run_task SessionDone w = session_done w"
| "run_task (DhtLoop t) w = dht_loop t w"
| "run_task (MdnsLoop t) w = mdns_loop t w"
| "run_task (Call cb m) w = say (Callback cb (Failed m)) w"

text \<open>
  An input that names a Topic, a timer or a stream that does not exist is no input.
  A timer fires once, and only while it is pending; \<open>unannounce\<close> calls back once.
\<close>

fun step :: "input \<Rightarrow> world \<Rightarrow> error + world" where
  "step (Announce key opts rnd) w =
     (case announce_topic key opts rnd w of Inl e \<Rightarrow> Inl e | Inr (t, w') \<Rightarrow> Inr w')"
| "step (Lookup key rnd) w =
     (case lookup_topic key rnd w of Inl e \<Rightarrow> Inl e | Inr (t, w') \<Rightarrow> Inr w')"
| "step (LookupOne key cb rnd) w = lookupOne key cb rnd w"
| "step (TopicUpdate t) w = (if t < length (topics w) then Inr (topic_update t w) else Inr w)"
| "step (TopicDestroy t) w = (if t < length (topics w) then topic_destroy t w else Inr w)"
| "step (OnPeerDestroy t) w =
     (if t < length (topics w)
      then Inr (upd_topic t (\<lambda>x. x\<lparr>t_on_peer := t_on_peer x @ [CallerDestroys]\<rparr>) w)
      else Inr w)"
| "step Destroy w = discovery_destroy w"
| "step Tick w = (case ticks w of [] \<Rightarrow> Inr w | f # fs \<Rightarrow> Inr (run_task f (w\<lparr>ticks := fs\<rparr>)))"
| "step (Timeout h) w =
     (if h < length (timers w)
      then (case timers w ! h of
              None \<Rightarrow> Inr w
            | Some (f, eager) \<Rightarrow> Inr (run_task f (w\<lparr>timers := (timers w)[h := None]\<rparr>)))
      else Inr w)"
| "step (StreamData h d) w =
     (if h < length (streams w) then ondhtdata (fst (streams w ! h)) d w else Inr w)"
| "step (StreamError h e) w = (if h < length (streams w) then Inr (dht_done h (Some e) w) else Inr w)"
| "step (StreamEnd h) w = (if h < length (streams w) then Inr (dht_done h None w) else Inr w)"
| "step (Unannounced t) w =
     (if t \<in> set (unannouncing w)
      then Inr (emit_close t (w\<lparr>unannouncing := remove1 t (unannouncing w)\<rparr>))
      else Inr w)"
| "step (QueryIn q) w = Inr (onmdnsquery q w)"
| "step (ResponseIn r address) w = onmdnsresponse r address w"

text \<open>
  A run. \<open>announce\<close>, \<open>lookup\<close> and \<open>lookupOne\<close> throw \<open>InstanceDestroyed\<close> before they
  change anything: the caller has the exception and the session goes on as it was. A
  TypeError ends the run.
\<close>

fun run :: "input list \<Rightarrow> world \<Rightarrow> error + world" where
  "run [] w = Inr w"
| "run (i # is) w =
     (case step i w of
        Inr w' \<Rightarrow> run is w'
      | Inl InstanceDestroyed \<Rightarrow> run is w
      | Inl TypeError \<Rightarrow> Inl TypeError)"

section \<open>What the claims speak of\<close>

text \<open>
  The response to a query, with the token \<open>_getId\<close> returns for a name: for every
  question of type SRV whose name is a domain of the index, the answer record of every
  Topic of that domain that has one, but for the Topics with that token.
\<close>

definition answers_of :: "world \<Rightarrow> buffer option \<Rightarrow> tref list \<Rightarrow> rr list" where
  "answers_of w token s =
     concat (map (\<lambda>t. case t_answer (topics w ! t) of None \<Rightarrow> [] | Some a \<Rightarrow> [a])
       (filter (\<lambda>t. token \<noteq> Some (t_id (topics w ! t))) s))"

definition aggregated :: "world \<Rightarrow> packet \<Rightarrow> rr list" where
  "aggregated w res =
     concat (map (\<lambda>q. if q_type q = ''SRV''
        then (case map_get (q_name q) w of None \<Rightarrow> []
              | Some s \<Rightarrow> answers_of w (getId (answers res) (q_name q)) s)
        else []) (questions res))"

text \<open>
  The token a query declares for a name, read off the packet: the first entry of the data
  of its first TXT record of that name that has data. The response to a query in these
  words: for every question of type SRV whose name is a domain of the index, in the order
  of the questions, the answer records of the Topics of that domain, in the order of the
  Set, but for the Topics whose token the query declares for that name.
\<close>

definition token_declared :: "packet \<Rightarrow> string \<Rightarrow> buffer \<Rightarrow> bool" where
  "token_declared res name b \<longleftrightarrow>
     (\<exists>as1 bs as2. answers res = as1 @ TXT name (b # bs) # as2
        \<and> (\<forall>b' bs'. TXT name (b' # bs') \<notin> set as1))"

definition response_to :: "world \<Rightarrow> packet \<Rightarrow> rr list" where
  "response_to w res =
     concat (map (\<lambda>q.
        if q_type q = ''SRV''
        then (case map_get (q_name q) w of
                None \<Rightarrow> []
              | Some s \<Rightarrow>
                  concat (map (\<lambda>t. case t_answer (topics w ! t) of None \<Rightarrow> [] | Some a \<Rightarrow> [a])
                    (filter (\<lambda>t. \<not> token_declared res (q_name q) (t_id (topics w ! t))) s)))
        else []) (questions res))"

text \<open>
  The list \<open>ping\<close> calls back with: an entry for each reply that carries a pong, in the
  order of the replies, its round-trip time counted from the one \<open>start\<close>.
\<close>

definition responders :: "int \<Rightarrow> (node \<times> string option \<times> int) list \<Rightarrow> ponged list" where
  "responders start rs =
     concat (map (\<lambda>(b, pong, now). case pong of None \<Rightarrow> []
        | Some pg \<Rightarrow> [\<lparr>pg_bootstrap = b, pg_rtt = now - start, pg_pong = pg\<rparr>]) rs)"

text \<open>
  What a trace shows of a Topic and of a callback: the events before the session's
  \<open>'close'\<close>, the results a callback was called with, the peers a Topic emitted, in order.
\<close>

definition before_close :: "effect list \<Rightarrow> effect set" where
  "before_close es = set (takeWhile (\<lambda>e. e \<noteq> SessionClose) es)"

fun call_of :: "cbid \<Rightarrow> effect \<Rightarrow> result list" where
  "call_of cb (Callback c r) = (if c = cb then [r] else [])"
| "call_of cb e = []"

definition calls_of :: "cbid \<Rightarrow> effect list \<Rightarrow> result list" where
  "calls_of cb es = concat (map (call_of cb) es)"

fun peer_of :: "tref \<Rightarrow> effect \<Rightarrow> peer list" where
  "peer_of t (Emit u (Peer p)) = (if u = t then [p] else [])"
| "peer_of t e = []"

definition peers_of :: "tref \<Rightarrow> effect list \<Rightarrow> peer list" where
  "peers_of t es = concat (map (peer_of t) es)"

text \<open>
  The examples. A session with two bootstrap nodes; the same with a lookup and an
  announcing Topic for the key \<open>01 02 03\<close>; a query for that key's domain that declares a
  token; the key; the options of \<open>announce(key, {port: 4000})\<close> and of \<open>announce(key, {})\<close>; a
  \<open>data\<close> event of a DHT stream with two peers.
\<close>

definition world0 :: world where
  "world0 = new_Discovery None [''n1'', ''n2'']"

definition world2 :: world where
  "world2 =
     snd (topic_of [1, 2, 3]
       (Some \<lparr>o_localPort = Some 4000, o_lookup = False,
              o_announce = Some \<lparr>a_port = 4000, a_localAddress = None\<rparr>\<rparr>) [2]
       (snd (topic_of [1, 2, 3] None [1] world0)))"

definition query_of :: "buffer \<Rightarrow> packet" where
  "query_of token =
     \<lparr>questions = [\<lparr>q_type = ''SRV'', q_name = ''010203.hyperswarm.local''\<rparr>],
      answers = [TXT ''010203.hyperswarm.local'' [token]]\<rparr>"

definition key3 :: buffer where "key3 = [1, 2, 3]"

definition announce4000 :: aopts where
  "announce4000 = \<lparr>localPort = None, port = Some 4000, lookup = False, localAddress = None\<rparr>"

definition no_ports :: aopts where
  "no_ports = \<lparr>localPort = None, port = None, lookup = False, localAddress = None\<rparr>"

definition two_peers :: dhtdata where
  "two_peers = \<lparr>d_node = ''n1'', d_localPeers = [],
                 d_peers = [(''10.0.0.7'', 4000), (''10.0.0.8'', 4001)]\<rparr>"

section \<open>The observable part of a session\<close>

text \<open>
  The \<open>'peer'\<close> and \<open>'close'\<close> events and the callbacks of a run depend on a part of the
  session only: which Topics are destroyed, their domains, whether they announce, their
  listeners, the Domain Index, \<open>missing\<close>, the queued ticks, the pending \<open>unannounce\<close> calls,
  and what was emitted so far. Timers, streams, \<open>'update'\<close> events and the calls to the DHT
  and to the multicast client are left out: the operations that touch only these leave
  the observable part as it is.
\<close>

record tview =
  tv_destroyed :: bool
  tv_domain :: string
  tv_announcing :: bool
  tv_on_peer :: "peer_listener list"
  tv_on_close :: "close_listener list"

definition tview_of :: "topic \<Rightarrow> tview" where
  "tview_of x = \<lparr>tv_destroyed = t_destroyed x, tv_domain = t_domain x,
     tv_announcing = (t_announce x \<noteq> None), tv_on_peer = t_on_peer x,
     tv_on_close = t_on_close x\<rparr>"

fun loud :: "effect \<Rightarrow> bool" where
  "loud (Emit t (Update e)) = False"
| "loud (Emit t x) = True"
| "loud SessionClose = True"
| "loud (Callback c r) = True"
| "loud e = False"

record view =
  v_destroyed :: bool
  v_tld :: string
  v_domains :: "(string \<times> tref list) list"
  v_topics :: "tview list"
  v_missing :: int
  v_ticks :: "task list"
  v_unannouncing :: "tref list"
  v_trace :: "effect list"

definition view :: "world \<Rightarrow> view" where
  "view w = \<lparr>v_destroyed = destroyed w, v_tld = tld w, v_domains = domains w,
     v_topics = map tview_of (topics w), v_missing = missing w, v_ticks = ticks w,
     v_unannouncing = unannouncing w, v_trace = filter loud (trace w)\<rparr>"

subsection \<open>The operations, on the observable part\<close>

text \<open>
  What \<open>Topic.destroy\<close>, \<open>done\<close>, the listeners of \<open>'close'\<close> and \<open>'peer'\<close>, \<open>emit\<close>, \<open>_topic\<close>
  and \<open>Discovery.destroy\<close> do to the observable part. \<open>a_trans\<close> is one observable step of
  the event loop; the callbacks of \<open>lookupOne\<close> that may be attached are those of \<open>C\<close>.
\<close>

definition a_remove :: "tref \<Rightarrow> string \<Rightarrow> (string \<times> tref list) list \<Rightarrow> (string \<times> tref list) list" where
  "a_remove t d ds =
     (case map_of ds d of None \<Rightarrow> ds
      | Some s \<Rightarrow> if removeAll t s = [] then filter (\<lambda>(k, v). k \<noteq> d) ds
                  else map (\<lambda>(k, v). if k = d then (k, removeAll t s) else (k, v)) ds)"

definition a_add :: "tref \<Rightarrow> string \<Rightarrow> (string \<times> tref list) list \<Rightarrow> (string \<times> tref list) list" where
  "a_add t d ds =
     (case map_of ds d of None \<Rightarrow> ds @ [(d, [t])]
      | Some s \<Rightarrow> map (\<lambda>(k, v). if k = d then (k, set_add t s) else (k, v)) ds)"

definition a_destroy :: "tref \<Rightarrow> view \<Rightarrow> view" where
  "a_destroy t v =
     (let x = v_topics v ! t in
      if tv_destroyed x then v
      else v\<lparr>v_topics := (v_topics v)[t := x\<lparr>tv_destroyed := True\<rparr>],
             v_domains := a_remove t (tv_domain x) (v_domains v),
             v_ticks := (if tv_announcing x then v_ticks v else v_ticks v @ [EmitClose t]),
             v_unannouncing :=
               (if tv_announcing x then v_unannouncing v @ [t] else v_unannouncing v)\<rparr>)"

definition a_session_done :: "view \<Rightarrow> view" where
  "a_session_done v =
     (if v_missing v - 1 \<noteq> 0 then v\<lparr>v_missing := v_missing v - 1\<rparr>
      else v\<lparr>v_missing := v_missing v - 1, v_trace := v_trace v @ [SessionClose]\<rparr>)"

fun a_run_close :: "close_listener \<Rightarrow> view \<Rightarrow> view" where
  "a_run_close Done v = a_session_done v"
| "a_run_close (OnClose cb) v = v\<lparr>v_trace := v_trace v @ [Callback cb (Failed ''Lookup failed'')]\<rparr>"

definition a_emit_close :: "tref \<Rightarrow> view \<Rightarrow> view" where
  "a_emit_close t v =
     fold a_run_close (tv_on_close (v_topics v ! t)) (v\<lparr>v_trace := v_trace v @ [Emit t Close]\<rparr>)"

fun a_run_peer :: "tref \<Rightarrow> peer \<Rightarrow> peer_listener \<Rightarrow> view \<Rightarrow> view" where
  "a_run_peer t p (OnPeer cb) v =
     (let x = v_topics v ! t;
          v1 = v\<lparr>v_topics := (v_topics v)[t := x\<lparr>tv_on_peer := remove1 (OnPeer cb) (tv_on_peer x),
                     tv_on_close := remove1 (OnClose cb) (tv_on_close x)\<rparr>]\<rparr>;
          v2 = a_destroy t v1
      in v2\<lparr>v_trace := v_trace v2 @ [Callback cb (Found p)]\<rparr>)"
| "a_run_peer t p CallerDestroys v = a_destroy t v"

definition a_create :: "string \<Rightarrow> bool \<Rightarrow> peer_listener list \<Rightarrow> close_listener list \<Rightarrow> view \<Rightarrow> view" where
  "a_create d ann lp lc v =
     v\<lparr>v_topics := v_topics v @ [\<lparr>tv_destroyed = False, tv_domain = d, tv_announcing = ann,
                                     tv_on_peer = lp, tv_on_close = lc\<rparr>],
       v_domains := a_add (length (v_topics v)) d (v_domains v)\<rparr>"

definition a_emit_peer :: "tref \<Rightarrow> peer \<Rightarrow> view \<Rightarrow> view" where
  "a_emit_peer t p v =
     fold (a_run_peer t p) (tv_on_peer (v_topics v ! t)) (v\<lparr>v_trace := v_trace v @ [Emit t (Peer p)]\<rparr>)"

definition a_listen :: "tref \<Rightarrow> view \<Rightarrow> view" where
  "a_listen t v =
     v\<lparr>v_topics := (v_topics v)[t := (v_topics v ! t)
          \<lparr>tv_on_peer := tv_on_peer (v_topics v ! t) @ [CallerDestroys]\<rparr>]\<rparr>"

definition a_mark :: "tref \<Rightarrow> view \<Rightarrow> view" where
  "a_mark t v =
     v\<lparr>v_topics := (v_topics v)[t := (v_topics v ! t)
          \<lparr>tv_on_close := tv_on_close (v_topics v ! t) @ [Done]\<rparr>]\<rparr>"

definition a_destroy_one :: "tref \<Rightarrow> view \<Rightarrow> view" where
  "a_destroy_one t v = a_mark t (a_destroy t (v\<lparr>v_missing := v_missing v + 1\<rparr>))"

definition a_destroy_all :: "view \<Rightarrow> view" where
  "a_destroy_all v =
     (let v1 = fold a_destroy_one (concat (map snd (v_domains v)))
                 (v\<lparr>v_destroyed := True, v_missing := 1\<rparr>)
      in v1\<lparr>v_ticks := v_ticks v1 @ [SessionDone]\<rparr>)"

inductive a_trans :: "cbid set \<Rightarrow> view \<Rightarrow> view \<Rightarrow> bool" for C :: "cbid set" where
  create: "\<not> v_destroyed v \<Longrightarrow> a_trans C v (a_create d ann [] [] v)"
| create_one: "\<not> v_destroyed v \<Longrightarrow> cb \<in> C \<Longrightarrow> a_trans C v (a_create d False [OnPeer cb] [OnClose cb] v)"
| listen: "t < length (v_topics v) \<Longrightarrow> a_trans C v (a_listen t v)"
| destroy: "t < length (v_topics v) \<Longrightarrow> a_trans C v (a_destroy t v)"
| destroy_all: "\<not> v_destroyed v \<Longrightarrow> a_trans C v (a_destroy_all v)"
| peer: "t < length (v_topics v) \<Longrightarrow>
         (tv_destroyed (v_topics v ! t) \<longrightarrow> (\<forall>cb. OnPeer cb \<notin> set (tv_on_peer (v_topics v ! t)))) \<Longrightarrow>
         a_trans C v (a_emit_peer t p v)"
| close_tick: "v_ticks v = EmitClose t # fs \<Longrightarrow> t < length (v_topics v) \<Longrightarrow>
         a_trans C v (a_emit_close t (v\<lparr>v_ticks := fs\<rparr>))"
| close_unannounced: "t \<in> set (v_unannouncing v) \<Longrightarrow> t < length (v_topics v) \<Longrightarrow>
         a_trans C v (a_emit_close t (v\<lparr>v_unannouncing := remove1 t (v_unannouncing v)\<rparr>))"
| done_tick: "v_ticks v = SessionDone # fs \<Longrightarrow> a_trans C v (a_session_done (v\<lparr>v_ticks := fs\<rparr>))"

subsection \<open>Well-formed sessions\<close>

text \<open>
  The Domain Index holds exactly the Topics that are not destroyed, each in the Set of its
  domain, and no empty Set. Streams, pending timers, queued ticks and pending \<open>unannounce\<close>
  calls belong to Topics that exist; timers run the loops, ticks the \<open>'close'\<close> events and
  \<open>done\<close>. \<open>sim\<close>: an input either throws \<open>InstanceDestroyed\<close> on a destroyed session, or
  is a sequence of observable steps between well-formed sessions.
\<close>

definition index_ok :: "view \<Rightarrow> bool" where
  "index_ok v \<longleftrightarrow>
     distinct (map fst (v_domains v)) \<and>
     (\<forall>d s. map_of (v_domains v) d = Some s \<longrightarrow>
        s \<noteq> [] \<and> distinct s \<and>
        (\<forall>t \<in> set s. t < length (v_topics v) \<and> \<not> tv_destroyed (v_topics v ! t)
           \<and> tv_domain (v_topics v ! t) = d)) \<and>
     (\<forall>t < length (v_topics v). \<not> tv_destroyed (v_topics v ! t) \<longrightarrow>
        (\<exists>s. map_of (v_domains v) (tv_domain (v_topics v ! t)) = Some s \<and> t \<in> set s))"

fun timer_task :: "nat \<Rightarrow> task \<Rightarrow> bool" where
  "timer_task n (DhtLoop t) = (t < n)"
| "timer_task n (MdnsLoop t) = (t < n)"
| "timer_task n f = False"

fun tick_task :: "nat \<Rightarrow> task \<Rightarrow> bool" where
  "tick_task n (EmitClose t) = (t < n)"
| "tick_task n SessionDone = True"
| "tick_task n f = False"

definition handles_ok :: "world \<Rightarrow> bool" where
  "handles_ok w \<longleftrightarrow>
     (\<forall>h < length (streams w). fst (streams w ! h) < length (topics w)) \<and>
     (\<forall>h < length (timers w). \<forall>f e. timers w ! h = Some (f, e) \<longrightarrow> timer_task (length (topics w)) f) \<and>
     (\<forall>f \<in> set (ticks w). tick_task (length (topics w)) f) \<and>
     (\<forall>t \<in> set (unannouncing w). t < length (topics w))"

definition sane :: "world \<Rightarrow> bool" where
  "sane w \<longleftrightarrow> handles_ok w \<and> index_ok (view w)"

fun cb_of :: "input \<Rightarrow> cbid set" where
  "cb_of (LookupOne key cb rnd) = {cb}"
| "cb_of i = {}"

definition sim :: "cbid set \<Rightarrow> input \<Rightarrow> world \<Rightarrow> bool" where
  "sim C i w \<longleftrightarrow>
     (step i w = Inl InstanceDestroyed \<and> destroyed w) \<or>
     (\<exists>w'. step i w = Inr w' \<and> sane w' \<and> (a_trans C)\<^sup>*\<^sup>* (view w) (view w'))"

text \<open>
  \<open>clearTimeout\<close> on the handle a Topic holds, and what \<open>_stopDht\<close> does to the stream.
\<close>

definition clear_timer :: "handle option \<Rightarrow> (task \<times> bool) option list \<Rightarrow> (task \<times> bool) option list" where
  "clear_timer ho ts = (case ho of None \<Rightarrow> ts | Some h \<Rightarrow> ts[h := None])"

definition destroy_note :: "handle option \<Rightarrow> effect list" where
  "destroy_note so = (case so of None \<Rightarrow> [] | Some h \<Rightarrow> [StreamDestroy h])"

subsection \<open>Invariants of closing\<close>

text \<open>
  A Topic's \<open>'close'\<close> is pending (as a tick or as an \<open>unannounce\<close> callback) or emitted,
  once in all, exactly when the Topic is destroyed. \<open>missing\<close> counts the Topics that carry
  the listener \<open>done\<close> and have not closed, and \<open>done\<close> itself while it is queued; the session
  has closed exactly when \<open>missing\<close> is zero, and then every Topic with the listener closed
  before. \<open>sframe\<close>: a step that leaves all this as it is.
\<close>

definition closes :: "tref \<Rightarrow> view \<Rightarrow> nat" where
  "closes t v = count_list (v_trace v) (Emit t Close)"

definition pend :: "tref \<Rightarrow> view \<Rightarrow> nat" where
  "pend t v = count_list (v_ticks v) (EmitClose t) + count_list (v_unannouncing v) t"

definition closing_ok :: "view \<Rightarrow> bool" where
  "closing_ok v \<longleftrightarrow>
     (\<forall>t. closes t v + pend t v =
        (if t < length (v_topics v) \<and> tv_destroyed (v_topics v ! t) then 1 else 0))"

definition dones :: "tref \<Rightarrow> view \<Rightarrow> nat" where
  "dones t v = count_list (tv_on_close (v_topics v ! t)) Done"

definition waiting :: "view \<Rightarrow> tref set" where
  "waiting v = {t. t < length (v_topics v) \<and> 0 < dones t v \<and> closes t v = 0}"

definition session_ok :: "view \<Rightarrow> bool" where
  "session_ok v \<longleftrightarrow>
     (\<forall>t < length (v_topics v). dones t v \<le> 1 \<and> (0 < dones t v \<longrightarrow> tv_destroyed (v_topics v ! t))) \<and>
     (if v_destroyed v
      then v_missing v = int (card (waiting v)) + int (count_list (v_ticks v) SessionDone)
           \<and> count_list (v_trace v) SessionClose = (if v_missing v = 0 then 1 else 0)
      else SessionDone \<notin> set (v_ticks v) \<and> (\<forall>t < length (v_topics v). dones t v = 0)
           \<and> SessionClose \<notin> set (v_trace v))"

definition order_ok :: "view \<Rightarrow> bool" where
  "order_ok v \<longleftrightarrow>
     (SessionClose \<in> set (v_trace v) \<longrightarrow>
        (\<forall>t < length (v_topics v). 0 < dones t v \<longrightarrow> Emit t Close \<in> before_close (v_trace v)))"

definition sframe :: "view \<Rightarrow> view \<Rightarrow> bool" where
  "sframe v v' \<longleftrightarrow>
     length (v_topics v) \<le> length (v_topics v') \<and> v_missing v' = v_missing v
     \<and> v_destroyed v' = v_destroyed v
     \<and> (\<exists>es. v_trace v' = v_trace v @ es \<and> SessionClose \<notin> set es
           \<and> (\<forall>u < length (v_topics v). 0 < dones u v \<longrightarrow> Emit u Close \<notin> set es))
     \<and> count_list (v_ticks v') SessionDone = count_list (v_ticks v) SessionDone
     \<and> (\<forall>u < length (v_topics v'). dones u v' = (if u < length (v_topics v) then dones u v else 0))
     \<and> (\<forall>u < length (v_topics v). tv_destroyed (v_topics v ! u) \<longrightarrow> tv_destroyed (v_topics v' ! u))"

definition good :: "view \<Rightarrow> bool" where
  "good v \<longleftrightarrow> index_ok v \<and> closing_ok v \<and> session_ok v \<and> order_ok v"

text \<open>
  What is never undone.
\<close>

definition grows :: "view \<Rightarrow> view \<Rightarrow> bool" where
  "grows v v' \<longleftrightarrow>
     length (v_topics v) \<le> length (v_topics v') \<and> (v_destroyed v \<longrightarrow> v_destroyed v')
     \<and> (\<forall>t < length (v_topics v). dones t v \<le> dones t v')"

subsection \<open>Invariants of \<open>lookupOne\<close>\<close>

text \<open>
  The two listeners of a \<open>lookupOne\<close> call with callback \<open>cb\<close> are on its Topic \<open>t\<close> and
  nowhere else. Either both are there, no peer was emitted and \<open>cb\<close> was not called; or
  both are gone, \<open>cb\<close> was called with the first peer and the Topic is destroyed; or the
  Topic has closed without a peer and \<open>cb\<close> was called with the error. \<open>fresh_ok\<close>: \<open>cb\<close> is
  not in use. \<open>lframe\<close>: a step that leaves all this as it is.
\<close>

definition np :: "cbid \<Rightarrow> tref \<Rightarrow> view \<Rightarrow> nat" where
  "np cb u v = count_list (tv_on_peer (v_topics v ! u)) (OnPeer cb)"

definition nc :: "cbid \<Rightarrow> tref \<Rightarrow> view \<Rightarrow> nat" where
  "nc cb u v = count_list (tv_on_close (v_topics v ! u)) (OnClose cb)"

definition lframe :: "tref \<Rightarrow> cbid \<Rightarrow> view \<Rightarrow> view \<Rightarrow> bool" where
  "lframe t cb v v' \<longleftrightarrow>
     length (v_topics v) \<le> length (v_topics v')
     \<and> calls_of cb (v_trace v') = calls_of cb (v_trace v)
     \<and> peers_of t (v_trace v') = peers_of t (v_trace v)
     \<and> closes t v' = closes t v
     \<and> (\<forall>u < length (v_topics v').
           np cb u v' = (if u < length (v_topics v) then np cb u v else 0)
           \<and> nc cb u v' = (if u < length (v_topics v) then nc cb u v else 0))
     \<and> (t < length (v_topics v) \<longrightarrow> tv_destroyed (v_topics v ! t) \<longrightarrow> tv_destroyed (v_topics v' ! t))"



section \<open>Domain derivation\<close>

lemma hex_digit_inj: "m < 16 \<Longrightarrow> n < 16 \<Longrightarrow> hex_digit m = hex_digit n \<Longrightarrow> m = n"
proof -
  assume a: "m < 16" "n < 16" "hex_digit m = hex_digit n"
  have d: "distinct ''0123456789abcdef''" by simp
  have l: "length ''0123456789abcdef'' = 16" by simp
  from a have "''0123456789abcdef'' ! m = ''0123456789abcdef'' ! n"
    unfolding hex_digit_def by simp
  with d l a show "m = n" by (metis nth_eq_iff_index_eq)
qed

lemma hex_byte_inj: "hex_byte a = hex_byte b \<Longrightarrow> a = b"
proof -
  assume "hex_byte a = hex_byte b"
  then have h: "hex_digit (unat a div 16) = hex_digit (unat b div 16)"
    "hex_digit (unat a mod 16) = hex_digit (unat b mod 16)"
    by (simp_all add: hex_byte_def)
  have "unat a < 256" "unat b < 256"
    using unsigned_less [of a, where ?'a = nat] unsigned_less [of b, where ?'a = nat]
    by simp_all
  then have "unat a div 16 < 16" "unat b div 16 < 16" by simp_all
  with h(1) have 1: "unat a div 16 = unat b div 16" by (rule_tac hex_digit_inj)
  have 2: "unat a mod 16 = unat b mod 16" by (rule hex_digit_inj [OF _ _ h(2)]) simp_all
  have "unat a = unat b" using 1 2 by (metis div_mult_mod_eq)
  then show "a = b" by (simp add: word_unat_eq_iff)
qed

lemma to_hex_inj: "to_hex xs = to_hex ys \<Longrightarrow> xs = ys"
proof (induction xs arbitrary: ys)
  case Nil
  then show ?case by (cases ys) (simp_all add: to_hex_def hex_byte_def)
next
  case (Cons x xs)
  show ?case
  proof (cases ys)
    case Nil
    with Cons.prems show ?thesis by (simp add: to_hex_def hex_byte_def)
  next
    case (Cons y ys')
    with Cons.prems have "hex_byte x @ to_hex xs = hex_byte y @ to_hex ys'"
      by (simp add: to_hex_def)
    moreover have "length (hex_byte x) = length (hex_byte y)" by (simp add: hex_byte_def)
    ultimately have "hex_byte x = hex_byte y" "to_hex xs = to_hex ys'" by simp_all
    then show ?thesis using Cons.IH Cons by (simp add: hex_byte_inj)
  qed
qed

text \<open>
  Claim C2. The domain of a key is the hex encoding of the key's first 20 bytes, then
  \<open>.\<close>, then the suffix the session was created with (\<open>hyperswarm.local\<close> when none was
  given). Two keys that agree on their first 20 bytes have the same domain; and since
  the hex encoding loses nothing, two keys with the same domain agree on them. The suffix
  is \<open>opts.domain\<close> when that is a string that is not empty, \<open>hyperswarm.local\<close> otherwise.
\<close>

theorem domain_first_20_bytes:
  "domain_of (new_Discovery opts nodes) key = to_hex (take 20 key) @ ''.'' @ domain_suffix opts
   \<and> (take 20 k1 = take 20 k2 \<longrightarrow> domain_of w k1 = domain_of w k2)
   \<and> (domain_of w k1 = domain_of w k2 \<longrightarrow> take 20 k1 = take 20 k2)
   \<and> (opts = Some o1 \<and> opt_domain o1 = Some d \<and> d \<noteq> []
        \<longrightarrow> domain_of (new_Discovery opts nodes) key = to_hex (take 20 key) @ ''.'' @ d)
   \<and> (opts = None \<or> opts = Some o1 \<and> (opt_domain o1 = None \<or> opt_domain o1 = Some [])
        \<longrightarrow> domain_of (new_Discovery opts nodes) key = to_hex (take 20 key) @ ''.hyperswarm.local'')"
  by (auto simp: domain_of_def new_Discovery_def slice_0_20_def domain_suffix_def dest: to_hex_inj)

theorem domain_first_20_bytes_witness:
  "domain_of (new_Discovery (Some \<lparr>opt_domain = Some ''test.local'', opt_bootstrap = None,
      opt_ephemeral = None\<rparr>) []) [1, 1, 1, 1, 1, 1, 1, 1, 1, 1, 1, 1, 1, 1, 1, 1, 1, 1, 1, 1, 2, 3] =
     ''0101010101010101010101010101010101010101.test.local''
   \<and> domain_of (new_Discovery None []) [1, 1, 1, 1, 1, 1, 1, 1, 1, 1, 1, 1, 1, 1, 1, 1, 1, 1, 1, 1, 2, 3]
     = domain_of (new_Discovery None []) [1, 1, 1, 1, 1, 1, 1, 1, 1, 1, 1, 1, 1, 1, 1, 1, 1, 1, 1, 1, 9]"
  using domain_first_20_bytes [of "Some \<lparr>opt_domain = Some ''test.local'', opt_bootstrap = None,
      opt_ephemeral = None\<rparr>" "[]" "[1, 1, 1, 1, 1, 1, 1, 1, 1, 1, 1, 1, 1, 1, 1, 1, 1, 1, 1, 1, 2, 3]" "[1, 1, 1, 1, 1, 1, 1, 1, 1, 1, 1, 1, 1, 1, 1, 1, 1, 1, 1, 1, 2, 3]"
      "[1, 1, 1, 1, 1, 1, 1, 1, 1, 1, 1, 1, 1, 1, 1, 1, 1, 1, 1, 1, 9]" "new_Discovery None []"
      "\<lparr>opt_domain = Some ''test.local'', opt_bootstrap = None, opt_ephemeral = None\<rparr>" "''test.local''"]
  by (simp add: to_hex_def hex_byte_def hex_digit_def domain_suffix_def)

section \<open>Retry delays\<close>

lemma round_even_le: "x \<le> of_int m \<Longrightarrow> round_even x \<le> m"
  unfolding round_even_def Let_def
  by (auto simp: floor_le_iff le_floor_iff)

lemma round_even_ge: "of_int m \<le> x \<Longrightarrow> m \<le> round_even x"
proof -
  assume "of_int m \<le> x"
  then have "m \<le> \<lfloor>x\<rfloor>" by (simp add: le_floor_iff)
  then show ?thesis unfolding round_even_def Let_def by auto
qed

lemma exponent_le_52: "x < 2 ^ 53 \<Longrightarrow> exponent x \<le> 52"
proof (cases "1 \<le> x")
  case True
  assume "x < 2 ^ 53"
  then have "\<lfloor>x\<rfloor> < 2 ^ 53" by (simp add: floor_less_iff)
  then have "bitlen \<lfloor>x\<rfloor> \<le> 53" by (simp add: bitlen_le_iff_power)
  then show ?thesis using True by (simp add: exponent_def)
next
  case False
  have "0 \<le> bitlen (\<lceil>1 / x\<rceil> - 1)" by (rule bitlen_nonneg)
  then show ?thesis using False by (simp add: exponent_def)
qed

text \<open>
  Rounding stays between two integers that enclose the exact value: below \<open>2 ^ 53\<close>
  every integer is a binary64 number.
\<close>

lemma fl_between:
  assumes "of_int a \<le> x" "x \<le> of_int b" "0 \<le> a" "x < 2 ^ 53"
  shows "of_int a \<le> fl x \<and> fl x \<le> of_int b"
proof (cases "x \<le> 0")
  case True
  then have "x = 0" "a = 0" using assms by auto
  then show ?thesis using assms by (simp add: fl_def)
next
  case False
  define k where "k = min 1074 (52 - exponent x)"
  have k0: "0 \<le> k" using exponent_le_52 [OF assms(4)] by (simp add: k_def)
  define s :: rat where "s = 2 ^ nat k"
  have s: "pow2 k = s" "0 < s" using k0 by (simp_all add: pow2_def s_def)
  have si: "s = of_int (2 ^ nat k)" by (simp add: s_def)
  have "of_int (a * 2 ^ nat k) \<le> x * s" using assms(1) s(2) by (simp add: si)
  then have lo: "a * 2 ^ nat k \<le> round_even (x * s)" by (rule round_even_ge)
  have "x * s \<le> of_int (b * 2 ^ nat k)" using assms(2) s(2) by (simp add: si)
  then have hi: "round_even (x * s) \<le> b * 2 ^ nat k" by (rule round_even_le)
  have f: "fl x = of_int (round_even (x * s)) / s"
    using False s(1) by (simp add: fl_def k_def Let_def)
  have "of_int a * s \<le> of_int (round_even (x * s))"
    using lo unfolding si by (metis of_int_le_iff of_int_mult)
  moreover have "of_int (round_even (x * s)) \<le> of_int b * s"
    using hi unfolding si by (metis of_int_le_iff of_int_mult)
  ultimately show ?thesis using s(2) unfolding f
    by (simp add: pos_le_divide_eq pos_divide_le_eq)
qed

lemma notify_delay_between:
  assumes "0 \<le> r" "r < 1"
  shows "wait_of eager \<le> notify_delay eager r \<and> notify_delay eager r \<le> 2 * wait_of eager"
proof -
  define w :: int where "w = wait_of eager"
  have w: "0 < w" "w \<le> 300000" by (simp_all add: w_def wait_of_def)
  have wb: "rat_of_int w \<le> 300000" "0 < rat_of_int w" using w by simp_all
  have big: "(600000 :: rat) < 2 ^ 53" by simp
  have p0: "of_int 0 \<le> r * of_int w" using assms w by simp
  have p1: "r * of_int w \<le> of_int w" using assms w by (simp add: mult_left_le_one_le)
  have p2: "r * rat_of_int w < 2 ^ 53" using p1 wb big by linarith
  have p: "of_int 0 \<le> fl (r * of_int w) \<and> fl (r * of_int w) \<le> of_int w"
    by (rule fl_between [OF p0 p1 _ p2]) simp
  define s where "s = of_int w + fl (r * of_int w)"
  have s0: "of_int w \<le> s" using p by (simp add: s_def)
  have s1: "s \<le> of_int (2 * w)" using p by (simp add: s_def)
  have s2: "s < 2 ^ 53" using s1 wb big by simp
  have "of_int w \<le> fl s \<and> fl s \<le> of_int (2 * w)"
    by (rule fl_between [OF s0 s1 _ s2]) (use w in simp)
  then have "w \<le> \<lfloor>fl s\<rfloor> \<and> \<lfloor>fl s\<rfloor> \<le> 2 * w"
    by (simp add: le_floor_iff floor_le_iff; linarith?)
  then show ?thesis by (simp add: notify_delay_def Let_def w_def s_def)
qed

text \<open>
  Claim C7, as stated, fails: the delay is not always below the upper end. The draw
  \<open>1 - 2 ^ - 52\<close> is a binary64 number in \<open>[0, 1)\<close>; \<open>300000 * r\<close> rounds to
  \<open>300000 - 2 ^ - 34\<close> and \<open>300000 + _\<close> lies halfway between two binary64 numbers and
  rounds to \<open>600000\<close>. For the eager class the draw \<open>1 - 2 ^ - 53\<close> gives \<open>60000\<close>.
\<close>

theorem notify_delay_upper_end_reached:
  "(0 :: rat) \<le> 1 - 1 / 2 ^ 52 \<and> (1 - 1 / 2 ^ 52 :: rat) < 1
   \<and> fl (1 - 1 / 2 ^ 52) = 1 - 1 / 2 ^ 52
   \<and> notify_delay False (1 - 1 / 2 ^ 52) = 600000
   \<and> \<not> notify_delay False (1 - 1 / 2 ^ 52) < 600000
   \<and> fl (1 - 1 / 2 ^ 53) = 1 - 1 / 2 ^ 53
   \<and> notify_delay True (1 - 1 / 2 ^ 53) = 60000"
  by code_simp

text \<open>
  Claim C7, amended. For every draw \<open>r\<close> in \<open>[0, 1)\<close> the eager delay lies in
  \<open>[30000, 60000]\<close> milliseconds and the lazy delay in \<open>[300000, 600000]\<close>
  milliseconds, both ends included.
\<close>

theorem notify_delay_bounds:
  assumes "0 \<le> r" "r < 1"
  shows "30000 \<le> notify_delay True r \<and> notify_delay True r \<le> 60000
       \<and> 300000 \<le> notify_delay False r \<and> notify_delay False r \<le> 600000"
  using notify_delay_between [OF assms, of True] notify_delay_between [OF assms, of False]
  by (simp add: wait_of_def)

theorem notify_delay_bounds_witness:
  "(0 :: rat) \<le> 1 / 2 \<and> (1 / 2 :: rat) < 1
   \<and> 30000 \<le> notify_delay True (1 / 2) \<and> notify_delay True (1 / 2) \<le> 60000
   \<and> 300000 \<le> notify_delay False (1 / 2) \<and> notify_delay False (1 / 2) \<le> 600000"
  using notify_delay_bounds [of "1 / 2"] by simp

section \<open>Frame lemmas\<close>

text \<open>The definitions of the operations, for unfolding.\<close>

lemmas op_defs = say_def nextTick_def process_nextTick_def setTimeout_def clearTimeout_def
  map_get_def map_set_def map_delete_def set_add_def set_delete_def upd_topic_def
  domain_of_def notify_def dht_loop_def startDht_def dht_done_def mdns_loop_def startMdns_def
  stopDht_def new_Topic_def topic_update_def topic_destroy_def session_done_def emit_close_def
  emit_peer_def ondhtdata_def topic_of_def lookup_topic_def announce_topic_def lookupOne_def
  holepunch_def destroy_topic_def destroy_set_def discovery_destroy_def onmdnsresponse_def
  onmdnsquery_def or_else_def id_prefix_def Let_def

lemmas value_defs = new_Discovery_def domain_suffix_def to_hex_def hex_byte_def hex_digit_def
  slice_0_20_def

lemmas run_defs = announce_topic_def lookup_topic_def lookupOne_def topic_of_def new_Topic_def
  topic_update_def startDht_def startMdns_def dht_loop_def mdns_loop_def dht_done_def notify_def
  topic_destroy_def stopDht_def or_else_def upd_topic_def domain_of_def id_prefix_def
  ondhtdata_def emit_peer_def emit_close_def session_done_def discovery_destroy_def
  destroy_topic_def destroy_set_def

lemma topics_say [simp]: "topics (say e w) = topics w"
  by (simp add: say_def)

lemma topics_map_set [simp]: "topics (map_set d s w) = topics w"
  by (simp add: map_set_def)

lemma topics_map_delete [simp]: "topics (map_delete d w) = topics w"
  by (simp add: map_delete_def)

lemma topics_clearTimeout [simp]: "topics (clearTimeout h w) = topics w"
  by (simp add: clearTimeout_def split: option.splits)

lemma topics_nextTick [simp]: "topics (nextTick f w) = topics w"
  by (simp add: nextTick_def)

lemma topics_upd_topic [simp]: "topics (upd_topic t f w) = (topics w)[t := f (topics w ! t)]"
  by (simp add: upd_topic_def)

lemma topics_dht_loop:
  "topics (dht_loop t w) =
     (topics w)[t := (topics w ! t)\<lparr>t_timeoutDht := None, t_stream := Some (length (streams w))\<rparr>]"
  by (simp add: dht_loop_def Let_def)

lemma topics_mdns_loop:
  "topics (mdns_loop t w) =
     (topics w)[t := (topics w ! t)\<lparr>t_timeoutMdns := Some (length (timers w))\<rparr>]"
  by (simp add: mdns_loop_def Let_def notify_def setTimeout_def say_def)

text \<open>The fields of a new Topic that its loops do not touch.\<close>

lemma new_Topic_fields:
  assumes "new_Topic key opts rnd w = (t, w')"
  shows "t = length (topics w)" "length (topics w') = Suc (length (topics w))"
    "take (length (topics w)) (topics w') = topics w"
    "t_answer (topics w' ! t) =
       (case opts of None \<Rightarrow> None
        | Some o1 \<Rightarrow> (case o_localPort o1 of None \<Rightarrow> None
            | Some n \<Rightarrow> if n = 0 then None else Some (SRV (domain_of w key) ''0.0.0.0'' n)))"
    "t_id (topics w' ! t) = id_prefix @ rnd"
    "t_domain (topics w' ! t) = domain_of w key"
    "t_key (topics w' ! t) = key"
    "t_announce (topics w' ! t) = (case opts of None \<Rightarrow> None | Some o1 \<Rightarrow> o_announce o1)"
    "\<not> t_destroyed (topics w' ! t)"
    "t_on_peer (topics w' ! t) = []" "t_on_close (topics w' ! t) = []"
  using assms
  by (auto simp: new_Topic_def Let_def startDht_def startMdns_def topics_dht_loop topics_mdns_loop
      nth_append split: option.splits if_splits)

lemma map_of_replace:
  "map_of (map (\<lambda>(k, v). if k = d then (k, s) else (k, v)) ds) d' =
     (if d' = d then (if map_of ds d = None then None else Some s) else map_of ds d')"
  by (induction ds) auto


lemma map_of_remove:
  "map_of (filter (\<lambda>(k, v). k \<noteq> d) ds) d' = (if d' = d then None else map_of ds d')"
  by (induction ds) auto

lemma map_get_map_delete:
  "map_get d' (map_delete d w) = (if d' = d then None else map_get d' w)"
  by (simp add: map_get_def map_delete_def map_of_remove)


section \<open>Answering multicast queries\<close>

lemma answer_topics_eq: "answer_topics w token ts r = r @ answers_of w token ts"
  by (induction ts arbitrary: r) (auto simp: answers_of_def split: option.splits)

lemma answer_questions_eq:
  "answer_questions w res qs r =
     r @ concat (map (\<lambda>q. if q_type q = ''SRV''
        then (case map_get (q_name q) w of None \<Rightarrow> []
              | Some s \<Rightarrow> answers_of w (getId (answers res) (q_name q)) s)
        else []) qs)"
  by (induction qs arbitrary: r) (auto simp: answer_topics_eq split: option.splits)

lemma getId_sound:
  "getId as name = Some b \<Longrightarrow> \<exists>bs. TXT name (b # bs) \<in> set as"
  by (induction as name rule: getId.induct) (auto split: if_splits)

lemma getId_skip:
  assumes "\<And>b bs. a \<noteq> TXT name (b # bs)"
  shows "getId (a # as) name = getId as name"
proof (cases a)
  case (TXT n d)
  then show ?thesis using assms by (cases d) auto
qed simp_all

lemma getId_Some_iff:
  "getId as name = Some b \<longleftrightarrow>
     (\<exists>as1 bs as2. as = as1 @ TXT name (b # bs) # as2 \<and> (\<forall>b' bs'. TXT name (b' # bs') \<notin> set as1))"
proof (induction as)
  case Nil
  show ?case by simp
next
  case (Cons a as)
  show ?case
  proof (cases "\<exists>b0 bs0. a = TXT name (b0 # bs0)")
    case True
    then obtain b0 bs0 where a: "a = TXT name (b0 # bs0)" by blast
    have "(\<exists>as1 bs as2. a # as = as1 @ TXT name (b # bs) # as2
        \<and> (\<forall>b' bs'. TXT name (b' # bs') \<notin> set as1)) \<longleftrightarrow> b0 = b"
    proof
      assume "\<exists>as1 bs as2. a # as = as1 @ TXT name (b # bs) # as2
        \<and> (\<forall>b' bs'. TXT name (b' # bs') \<notin> set as1)"
      then obtain as1 bs as2 where e: "a # as = as1 @ TXT name (b # bs) # as2"
        and n: "\<forall>b' bs'. TXT name (b' # bs') \<notin> set as1" by blast
      show "b0 = b"
      proof (cases as1)
        case Nil
        then show ?thesis using e a by simp
      next
        case (Cons x xs)
        then have "a \<in> set as1" using e by simp
        then show ?thesis using n a by blast
      qed
    next
      assume "b0 = b"
      then have "a # as = [] @ TXT name (b # bs0) # as" using a by simp
      then show "\<exists>as1 bs as2. a # as = as1 @ TXT name (b # bs) # as2
        \<and> (\<forall>b' bs'. TXT name (b' # bs') \<notin> set as1)"
        by (intro exI [of _ "[]"] exI [of _ bs0] exI [of _ as]) simp
    qed
    then show ?thesis using a by simp
  next
    case False
    then have na: "\<And>b bs. a \<noteq> TXT name (b # bs)" by blast
    have "(\<exists>as1 bs as2. a # as = as1 @ TXT name (b # bs) # as2
        \<and> (\<forall>b' bs'. TXT name (b' # bs') \<notin> set as1))
      \<longleftrightarrow> (\<exists>as1 bs as2. as = as1 @ TXT name (b # bs) # as2
        \<and> (\<forall>b' bs'. TXT name (b' # bs') \<notin> set as1))"
    proof
      assume "\<exists>as1 bs as2. a # as = as1 @ TXT name (b # bs) # as2
        \<and> (\<forall>b' bs'. TXT name (b' # bs') \<notin> set as1)"
      then obtain as1 bs as2 where e: "a # as = as1 @ TXT name (b # bs) # as2"
        and n: "\<forall>b' bs'. TXT name (b' # bs') \<notin> set as1" by blast
      obtain xs where x: "as1 = a # xs" using e na by (cases as1) auto
      then have "as = xs @ TXT name (b # bs) # as2" "\<forall>b' bs'. TXT name (b' # bs') \<notin> set xs"
        using e n by auto
      then show "\<exists>as1 bs as2. as = as1 @ TXT name (b # bs) # as2
        \<and> (\<forall>b' bs'. TXT name (b' # bs') \<notin> set as1)" by blast
    next
      assume "\<exists>as1 bs as2. as = as1 @ TXT name (b # bs) # as2
        \<and> (\<forall>b' bs'. TXT name (b' # bs') \<notin> set as1)"
      then obtain as1 bs as2 where e: "as = as1 @ TXT name (b # bs) # as2"
        and n: "\<forall>b' bs'. TXT name (b' # bs') \<notin> set as1" by blast
      have "a # as = (a # as1) @ TXT name (b # bs) # as2" using e by simp
      moreover have "\<forall>b' bs'. TXT name (b' # bs') \<notin> set (a # as1)" using n na by auto
      ultimately show "\<exists>as1 bs as2. a # as = as1 @ TXT name (b # bs) # as2
        \<and> (\<forall>b' bs'. TXT name (b' # bs') \<notin> set as1)" by blast
    qed
    then show ?thesis using Cons.IH by (simp add: getId_skip [OF na])
  qed
qed

lemma token_declared_getId:
  "token_declared res name b \<longleftrightarrow> getId (answers res) name = Some b"
  by (simp add: token_declared_def getId_Some_iff)

lemma response_to_aggregated: "response_to w res = aggregated w res"
  unfolding response_to_def aggregated_def answers_of_def token_declared_getId by simp

lemma aggregated_member:
  assumes "q \<in> set (questions res)" "q_type q = ''SRV''" "map_get (q_name q) w = Some s"
    "t \<in> set s" "t_answer (topics w ! t) = Some a"
    "getId (answers res) (q_name q) \<noteq> Some (t_id (topics w ! t))"
  shows "a \<in> set (aggregated w res)"
proof -
  have "a \<in> set (answers_of w (getId (answers res) (q_name q)) s)"
    using assms(4-6) by (force simp: answers_of_def)
  then show ?thesis using assms(1-3) by (force simp: aggregated_def)
qed

lemma aggregated_source:
  assumes "a \<in> set (aggregated w res)"
  shows "\<exists>q s t. q \<in> set (questions res) \<and> q_type q = ''SRV'' \<and> map_get (q_name q) w = Some s
        \<and> t \<in> set s \<and> t_answer (topics w ! t) = Some a
        \<and> getId (answers res) (q_name q) \<noteq> Some (t_id (topics w ! t))"
proof -
  from assms obtain q where q: "q \<in> set (questions res)" "q_type q = ''SRV''"
    and "a \<in> set (case map_get (q_name q) w of None \<Rightarrow> []
            | Some s \<Rightarrow> answers_of w (getId (answers res) (q_name q)) s)"
    by (auto simp: aggregated_def split: if_splits)
  then obtain s where s: "map_get (q_name q) w = Some s"
    and "a \<in> set (answers_of w (getId (answers res) (q_name q)) s)"
    by (cases "map_get (q_name q) w") auto
  then obtain t where "t \<in> set s" "t_answer (topics w ! t) = Some a"
    "getId (answers res) (q_name q) \<noteq> Some (t_id (topics w ! t))"
    by (auto simp: answers_of_def split: option.splits)
  with q s show ?thesis by blast
qed

text \<open>
  Claim C3, the counterexample. \<open>announce(key, {})\<close> makes a Topic whose announce descriptor
  is set (\<open>{port: 0, localAddress: undefined}\<close>) and whose answer record is \<open>null\<close>, the local
  port being zero. A query for its domain that declares another token is answered with no
  record.
\<close>

theorem announcing_topic_without_answer:
  "case announce_topic key3 no_ports [1] world0 of
     Inl e \<Rightarrow> False
   | Inr (t, w) \<Rightarrow>
       t_announce (topics w ! t) = Some \<lparr>a_port = 0, a_localAddress = None\<rparr>
       \<and> map_get ''010203.hyperswarm.local'' w = Some [t]
       \<and> t_id (topics w ! t) = id_prefix @ [1]
       \<and> questions (query_of (id_prefix @ [9])) = [\<lparr>q_type = ''SRV'', q_name = ''010203.hyperswarm.local''\<rparr>]
       \<and> answers (query_of (id_prefix @ [9])) = [TXT ''010203.hyperswarm.local'' [id_prefix @ [9]]]
       \<and> onmdnsquery (query_of (id_prefix @ [9])) w = w\<lparr>trace := trace w @ [MdnsResponse []]\<rparr>"
  by (simp add: world0_def key3_def no_ports_def query_of_def onmdnsquery_def run_defs op_defs
        value_defs)

text \<open>
  Claim C3, amended. A query is answered by exactly one response, and nothing else changes.
  The token a query declares for a name is the first entry of its first TXT record of that
  name that has data. For every question of type SRV whose name is a domain of the index,
  in the order of the questions, the response holds the answer record of every Topic of
  that domain that has an answer record, in the order of the Set, but for the Topics whose
  token is the token the query declares for that domain: these are skipped, so a Topic does
  not answer its own query. The response holds nothing else. (A Topic has an answer record
  when it was made with a local port that is not zero: a set announce descriptor is not
  enough.)
\<close>

theorem onmdnsquery_response:
  "onmdnsquery res w = w\<lparr>trace := trace w @ [MdnsResponse (response_to w res)]\<rparr>
   \<and> (q \<in> set (questions res) \<and> q_type q = ''SRV'' \<and> map_get (q_name q) w = Some s
        \<and> t \<in> set s \<and> t_answer (topics w ! t) = Some a
        \<and> \<not> token_declared res (q_name q) (t_id (topics w ! t))
      \<longrightarrow> a \<in> set (response_to w res))
   \<and> (\<forall>a \<in> set (response_to w res). \<exists>q s t.
        q \<in> set (questions res) \<and> q_type q = ''SRV'' \<and> map_get (q_name q) w = Some s
        \<and> t \<in> set s \<and> t_answer (topics w ! t) = Some a
        \<and> \<not> token_declared res (q_name q) (t_id (topics w ! t)))
   \<and> (questions res = [q] \<and> q_type q = ''SRV'' \<and> map_get (q_name q) w = Some s
        \<and> answers res = TXT (q_name q) (b # bs) # as
      \<longrightarrow> response_to w res =
            concat (map (\<lambda>t. case t_answer (topics w ! t) of None \<Rightarrow> [] | Some a \<Rightarrow> [a])
              (filter (\<lambda>t. t_id (topics w ! t) \<noteq> b) s)))"
proof -
  have 1: "onmdnsquery res w = w\<lparr>trace := trace w @ [MdnsResponse (response_to w res)]\<rparr>"
    by (simp add: onmdnsquery_def answer_questions_eq response_to_aggregated aggregated_def say_def)
  have 2: "a \<in> set (response_to w res)"
    if "q \<in> set (questions res)" "q_type q = ''SRV''" "map_get (q_name q) w = Some s"
       "t \<in> set s" "t_answer (topics w ! t) = Some a"
       "\<not> token_declared res (q_name q) (t_id (topics w ! t))"
    using aggregated_member [of q res w s t a] that
    by (simp add: response_to_aggregated token_declared_getId)
  have 3: "\<exists>q s t. q \<in> set (questions res) \<and> q_type q = ''SRV'' \<and> map_get (q_name q) w = Some s
        \<and> t \<in> set s \<and> t_answer (topics w ! t) = Some a
        \<and> \<not> token_declared res (q_name q) (t_id (topics w ! t))"
    if "a \<in> set (response_to w res)" for a
    using aggregated_source [of a w res] that
    by (simp add: response_to_aggregated token_declared_getId)
  have 4: "response_to w res =
            concat (map (\<lambda>t. case t_answer (topics w ! t) of None \<Rightarrow> [] | Some a \<Rightarrow> [a])
              (filter (\<lambda>t. t_id (topics w ! t) \<noteq> b) s))"
    if h: "questions res = [q]" "q_type q = ''SRV''" "map_get (q_name q) w = Some s"
       "answers res = TXT (q_name q) (b # bs) # as"
  proof -
    have "token_declared res (q_name q) x \<longleftrightarrow> x = b" for x
      by (auto simp: token_declared_getId h(4))
    then show ?thesis by (simp add: response_to_def h(1-3))
  qed
  show ?thesis using 1 2 3 4 by blast
qed

theorem onmdnsquery_response_witness:
  "\<lparr>q_type = ''SRV'', q_name = ''010203.hyperswarm.local''\<rparr> \<in> set (questions (query_of (id_prefix @ [1])))
   \<and> map_get ''010203.hyperswarm.local'' world2 = Some [0, 1]
   \<and> t_answer (topics world2 ! 0) = None
   \<and> t_answer (topics world2 ! 1) = Some (SRV ''010203.hyperswarm.local'' ''0.0.0.0'' 4000)
   \<and> t_id (topics world2 ! 1) = id_prefix @ [2]
   \<and> \<not> token_declared (query_of (id_prefix @ [1])) ''010203.hyperswarm.local'' (id_prefix @ [2])
   \<and> SRV ''010203.hyperswarm.local'' ''0.0.0.0'' 4000
        \<in> set (response_to world2 (query_of (id_prefix @ [1])))
   \<and> response_to world2 (query_of (id_prefix @ [1])) = [SRV ''010203.hyperswarm.local'' ''0.0.0.0'' 4000]
   \<and> token_declared (query_of (id_prefix @ [2])) ''010203.hyperswarm.local'' (id_prefix @ [2])
   \<and> response_to world2 (query_of (id_prefix @ [2])) = []"
proof -
  have h: "\<lparr>q_type = ''SRV'', q_name = ''010203.hyperswarm.local''\<rparr> \<in> set (questions (query_of (id_prefix @ [1])))"
    "map_get ''010203.hyperswarm.local'' world2 = Some [0, 1]"
    "t_answer (topics world2 ! 0) = None"
    "t_answer (topics world2 ! 1) = Some (SRV ''010203.hyperswarm.local'' ''0.0.0.0'' 4000)"
    "t_id (topics world2 ! 1) = id_prefix @ [2]"
    "t_id (topics world2 ! 0) = id_prefix @ [1]"
    "\<not> token_declared (query_of (id_prefix @ [1])) ''010203.hyperswarm.local'' (id_prefix @ [2])"
    "token_declared (query_of (id_prefix @ [2])) ''010203.hyperswarm.local'' (id_prefix @ [2])"
    by (simp_all add: world2_def world0_def query_of_def token_declared_getId run_defs op_defs
        value_defs)
  have q: "questions (query_of x) = [\<lparr>q_type = ''SRV'', q_name = ''010203.hyperswarm.local''\<rparr>]"
    "answers (query_of x) = TXT ''010203.hyperswarm.local'' [x] # []" for x
    by (simp_all add: query_of_def)
  have c: "SRV ''010203.hyperswarm.local'' ''0.0.0.0'' 4000
        \<in> set (response_to world2 (query_of (id_prefix @ [1])))"
    using onmdnsquery_response [of "query_of (id_prefix @ [1])" world2
        "\<lparr>q_type = ''SRV'', q_name = ''010203.hyperswarm.local''\<rparr>" "[0, 1]" 1
        "SRV ''010203.hyperswarm.local'' ''0.0.0.0'' 4000"] h
    by simp
  have r1: "response_to world2 (query_of (id_prefix @ [1])) = [SRV ''010203.hyperswarm.local'' ''0.0.0.0'' 4000]"
    using onmdnsquery_response [of "query_of (id_prefix @ [1])" world2
        "\<lparr>q_type = ''SRV'', q_name = ''010203.hyperswarm.local''\<rparr>" "[0, 1]" 1
        "SRV ''010203.hyperswarm.local'' ''0.0.0.0'' 4000" "id_prefix @ [1]" "[]" "[]"] h q
    by (simp add: id_prefix_def)
  have r2: "response_to world2 (query_of (id_prefix @ [2])) = []"
    using onmdnsquery_response [of "query_of (id_prefix @ [2])" world2
        "\<lparr>q_type = ''SRV'', q_name = ''010203.hyperswarm.local''\<rparr>" "[0, 1]" 1
        "SRV ''010203.hyperswarm.local'' ''0.0.0.0'' 4000" "id_prefix @ [2]" "[]" "[]"] h q
    by (simp add: id_prefix_def)
  show ?thesis using h c r1 r2 by simp
qed

section \<open>The local port of an announcing Topic\<close>



section \<open>Hole punching\<close>

text \<open>
  Claim C5, at a candidate without referrer: \<open>holepunch\<close> hands the Error object to
  \<open>process.nextTick\<close> where the callback belongs, so the call throws a TypeError; the
  caller's callback is neither queued nor called. The hole-punch of the DHT is not
  invoked.
\<close>

theorem holepunch_without_referrer:
  "holepunch \<lparr>p_port = 4000, p_host = ''10.0.0.7'', p_local = True, p_referrer = None\<rparr> 1
     (new_Discovery None []) = Inl TypeError"
  by (simp add: holepunch_def process_nextTick_def)

section \<open>Pinging the bootstrap nodes\<close>

lemma ping_replies_pending:
  "int (length rs) < pi_missing ps \<Longrightarrow>
   ping_replies rs (ps, w) =
     (ps\<lparr>pi_res := pi_res ps @ responders (pi_start ps) rs,
         pi_missing := pi_missing ps - int (length rs)\<rparr>, w)"
proof (induction rs arbitrary: ps)
  case Nil
  then show ?case by (simp add: responders_def)
next
  case (Cons r rs)
  obtain b pong now where r: "r = (b, pong, now)" by (cases r)
  show ?case using Cons.prems
    by (cases pong) (simp_all add: r ping_reply_def Let_def Cons.IH responders_def)
qed

lemma ping_replies_append:
  "ping_replies (xs @ ys) pw = ping_replies ys (ping_replies xs pw)"
proof (induction xs arbitrary: pw)
  case Nil
  show ?case by simp
next
  case (Cons x xs)
  obtain b pong now where "x = (b, pong, now)" by (cases x)
  then show ?case by (simp add: Cons.IH)
qed

lemma ping_replies_complete:
  assumes "int (length rs) = pi_missing ps" "rs \<noteq> []"
  shows "snd (ping_replies rs (ps, w)) =
     say (Callback (pi_cb ps)
        (if pi_res ps @ responders (pi_start ps) rs = [] then Failed ''All bootstrap nodes failed''
         else Pongs (pi_res ps @ responders (pi_start ps) rs))) w"
proof -
  obtain rs' r where rs: "rs = rs' @ [r]" using assms(2) by (metis rev_exhaust)
  obtain b pong now where r: "r = (b, pong, now)" by (cases r)
  note app = ping_replies_append
  have "int (length rs') < pi_missing ps" using assms(1) rs by simp
  note p = ping_replies_pending [OF this, of w]
  show ?thesis using assms(1)
    by (cases pong) (simp_all add: rs r app p ping_reply_def Let_def responders_def)
qed

text \<open>
  Claim C6. With no bootstrap node, \<open>ping\<close> makes no call to the DHT and queues the
  callback with the error for the next tick. Otherwise it pings every bootstrap node,
  with one start time; while replies are missing the callback is not called; with the
  last reply it is called once, with the entries of the nodes that answered if there
  is one, with an error if there is none.
\<close>

theorem ping_result:
  "(bootstrap w = [] \<longrightarrow>
      ping cb now w = (None, w\<lparr>ticks := ticks w @ [Call cb ''No bootstrap nodes available'']\<rparr>)
      \<and> run_task (Call cb ''No bootstrap nodes available'') w
          = w\<lparr>trace := trace w @ [Callback cb (Failed ''No bootstrap nodes available'')]\<rparr>)
   \<and> (bootstrap w \<noteq> [] \<longrightarrow>
      (\<exists>ps w'. ping cb now w = (Some ps, w')
         \<and> w' = w\<lparr>trace := trace w @ map DhtPing (bootstrap w)\<rparr>
         \<and> pi_start ps = now
         \<and> (length rs < length (bootstrap w) \<longrightarrow> snd (ping_replies rs (ps, w')) = w')
         \<and> (length rs = length (bootstrap w) \<longrightarrow>
              snd (ping_replies rs (ps, w')) =
                w'\<lparr>trace := trace w' @ [Callback cb
                   (if responders now rs = [] then Failed ''All bootstrap nodes failed''
                    else Pongs (responders now rs))]\<rparr>)))"
proof -
  have f: "\<And>bs w. fold (\<lambda>b. say (DhtPing b)) bs w = w\<lparr>trace := trace w @ map DhtPing bs\<rparr>"
    subgoal for bs w by (induction bs arbitrary: w) (simp_all add: say_def)
    done
  show ?thesis
  proof (cases "bootstrap w = []")
    case True
    then show ?thesis by (simp add: ping_def nextTick_def say_def)
  next
    case False
    define ps where "ps = \<lparr>pi_res = [], pi_missing = int (length (bootstrap w)), pi_start = now, pi_cb = cb\<rparr>"
    define w' where "w' = w\<lparr>trace := trace w @ map DhtPing (bootstrap w)\<rparr>"
    have p: "ping cb now w = (Some ps, w')" using False by (simp add: ping_def ps_def w'_def f Let_def)
    have a: "length rs < length (bootstrap w) \<Longrightarrow> snd (ping_replies rs (ps, w')) = w'"
      by (subst ping_replies_pending) (simp_all add: ps_def)
    have b: "length rs = length (bootstrap w) \<Longrightarrow> snd (ping_replies rs (ps, w')) =
                w'\<lparr>trace := trace w' @ [Callback cb
                   (if responders now rs = [] then Failed ''All bootstrap nodes failed''
                    else Pongs (responders now rs))]\<rparr>"
      using False by (subst ping_replies_complete) (auto simp: ps_def say_def)
    show ?thesis using False p a b by (simp add: ps_def w'_def)
  qed
qed

theorem ping_result_witness:
  "bootstrap world0 \<noteq> []
   \<and> length [(''n2'', Some ''pong'', 105 :: int), (''n1'', None, 110)] = length (bootstrap world0)
   \<and> (\<exists>ps w'. ping 7 100 world0 = (Some ps, w')
        \<and> trace (snd (ping_replies [(''n2'', Some ''pong'', 105), (''n1'', None, 110)] (ps, w')))
          = [DhtPing ''n1'', DhtPing ''n2'',
             Callback 7 (Pongs [\<lparr>pg_bootstrap = ''n2'', pg_rtt = 5, pg_pong = ''pong''\<rparr>])])"
proof -
  have h: "bootstrap world0 \<noteq> []"
    "length [(''n2'', Some ''pong'', 105 :: int), (''n1'', None, 110)] = length (bootstrap world0)"
    "bootstrap world0 = [''n1'', ''n2'']" "trace world0 = []"
    "responders 100 [(''n2'', Some ''pong'', 105), (''n1'', None, 110)]
       = [\<lparr>pg_bootstrap = ''n2'', pg_rtt = 5, pg_pong = ''pong''\<rparr>]"
    by (simp_all add: world0_def responders_def value_defs)
  show ?thesis
    using ping_result [of world0 7 100 "[(''n2'', Some ''pong'', 105), (''n1'', None, 110)]"] h
    by auto
qed

section \<open>The operations and the observable part\<close>

text \<open>
  What the operations of the program do to the observable part of the session: the quiet
  ones nothing, the others what the operations of the same name do.
\<close>

lemma view_say: "view (say e w) = (if loud e then (view w)\<lparr>v_trace := v_trace (view w) @ [e]\<rparr> else view w)"
  by (simp add: view_def say_def)

lemma view_say_quiet [simp]: "\<not> loud e \<Longrightarrow> view (say e w) = view w"
  by (simp add: view_say)

lemma view_clearTimeout [simp]: "view (clearTimeout h w) = view w"
  by (simp add: view_def clearTimeout_def split: option.splits)

lemma tview_quiet [simp]:
  "tview_of (x\<lparr>t_timeoutDht := a\<rparr>) = tview_of x"
  "tview_of (x\<lparr>t_timeoutMdns := b\<rparr>) = tview_of x"
  "tview_of (x\<lparr>t_stream := c\<rparr>) = tview_of x"
  by (simp_all add: tview_of_def)

lemma view_upd_topic:
  "view (upd_topic t f w) = (view w)\<lparr>v_topics := (v_topics (view w))[t := tview_of (f (topics w ! t))]\<rparr>"
  by (simp add: view_def upd_topic_def map_update)

lemma view_upd_quiet:
  "(\<And>x. tview_of (f x) = tview_of x) \<Longrightarrow> view (upd_topic t f w) = view w"
proof (cases "t < length (topics w)")
  case True
  assume "\<And>x. tview_of (f x) = tview_of x"
  then show ?thesis using True
    by (simp add: view_def upd_topic_def map_update list_update_same_conv)
next
  case False
  then have "(topics w)[t := f (topics w ! t)] = topics w" by (simp add: list_update_beyond)
  then show ?thesis by (simp add: view_def upd_topic_def)
qed

lemma view_timers [simp]: "view (w\<lparr>timers := x\<rparr>) = view w"
  by (simp add: view_def)

lemma view_streams [simp]: "view (w\<lparr>streams := x\<rparr>) = view w"
  by (simp add: view_def)

lemma view_dht_loop [simp]: "view (dht_loop t w) = view w"
  by (simp add: dht_loop_def Let_def view_upd_quiet split: option.splits)

lemma view_mdns_loop [simp]: "view (mdns_loop t w) = view w"
  by (simp add: mdns_loop_def Let_def notify_def setTimeout_def view_upd_quiet)

lemma view_dht_done [simp]: "view (dht_done h e w) = view w"
  by (simp add: dht_done_def Let_def notify_def setTimeout_def view_upd_quiet)

lemma view_stopDht [simp]: "view (stopDht t w) = view w"
  by (simp add: stopDht_def Let_def view_upd_quiet split: option.splits)

lemma view_topic_update [simp]: "view (topic_update t w) = view w"
  by (simp add: topic_update_def Let_def startDht_def startMdns_def view_upd_quiet split: option.splits)

lemma view_onmdnsquery [simp]: "view (onmdnsquery q w) = view w"
  by (simp add: onmdnsquery_def)

lemma view_fields [simp]:
  "v_destroyed (view w) = destroyed w" "v_domains (view w) = domains w"
  "v_missing (view w) = missing w" "v_ticks (view w) = ticks w"
  "v_unannouncing (view w) = unannouncing w" "length (v_topics (view w)) = length (topics w)"
  "v_tld (view w) = tld w"
  by (simp_all add: view_def)

lemma view_topic [simp]:
  "t < length (topics w) \<Longrightarrow> v_topics (view w) ! t = tview_of (topics w ! t)"
  by (simp add: view_def)

lemma tview_fields [simp]:
  "tv_destroyed (tview_of x) = t_destroyed x" "tv_domain (tview_of x) = t_domain x"
  "tv_announcing (tview_of x) = (t_announce x \<noteq> None)" "tv_on_peer (tview_of x) = t_on_peer x"
  "tv_on_close (tview_of x) = t_on_close x"
  by (simp_all add: tview_of_def)

lemma view_session_done: "view (session_done w) = a_session_done (view w)"
  by (simp add: session_done_def a_session_done_def Let_def view_def say_def)

lemma view_run_close: "view (run_close_listener l w) = a_run_close l (view w)"
  by (cases l) (simp_all add: view_session_done, simp add: view_def say_def)

lemma view_fold_close: "view (fold run_close_listener ls w) = fold a_run_close ls (view w)"
  by (induction ls arbitrary: w) (simp_all add: view_run_close)

lemma view_emit_close:
  "t < length (topics w) \<Longrightarrow> view (emit_close t w) = a_emit_close t (view w)"
  by (simp add: emit_close_def a_emit_close_def view_fold_close) (simp add: view_def say_def)

lemma filter_map_replace:
  "filter (\<lambda>(k, v). k \<noteq> d) (map (\<lambda>(k, v). if k = d then (k, s) else (k, v)) ds)
     = filter (\<lambda>(k, v). k \<noteq> d) ds"
  by (induction ds) auto

lemma view_eq_topic:
  assumes "view w' = view w" "t < length (topics w)"
  shows "length (topics w') = length (topics w)" "t_domain (topics w' ! t) = t_domain (topics w ! t)"
    "t_destroyed (topics w' ! t) = t_destroyed (topics w ! t)"
    "(t_announce (topics w' ! t) = None) = (t_announce (topics w ! t) = None)"
    "t_on_peer (topics w' ! t) = t_on_peer (topics w ! t)"
    "t_on_close (topics w' ! t) = t_on_close (topics w ! t)"
proof -
  show l: "length (topics w') = length (topics w)"
    using assms(1) by (metis view_fields(6))
  have "tview_of (topics w' ! t) = tview_of (topics w ! t)"
    using assms l by (metis view_topic)
  then show "t_domain (topics w' ! t) = t_domain (topics w ! t)"
    "t_destroyed (topics w' ! t) = t_destroyed (topics w ! t)"
    "(t_announce (topics w' ! t) = None) = (t_announce (topics w ! t) = None)"
    "t_on_peer (topics w' ! t) = t_on_peer (topics w ! t)"
    "t_on_close (topics w' ! t) = t_on_close (topics w ! t)"
    by (auto simp: tview_of_def)
qed

lemma clearTimeout_nf:
  "clearTimeout h w =
     w\<lparr>timers := (case h of None \<Rightarrow> timers w | Some k \<Rightarrow> (timers w)[k := None])\<rparr>"
  by (cases h) (simp_all add: clearTimeout_def)

lemma stopDht_nf:
  "stopDht t w =
     w\<lparr>timers := (case t_timeoutDht (topics w ! t) of None \<Rightarrow> timers w
                  | Some k \<Rightarrow> (timers w)[k := None]),
       topics := (topics w)[t := (topics w ! t)\<lparr>t_timeoutDht := None\<rparr>],
       trace := trace w @ (case t_stream (topics w ! t) of None \<Rightarrow> []
                  | Some h \<Rightarrow> [StreamDestroy h])\<rparr>"
proof (cases "t < length (topics w)")
  case True
  then show ?thesis
    by (simp add: stopDht_def Let_def clearTimeout_nf upd_topic_def say_def split: option.splits)
next
  case False
  then have "(topics w)[t := y] = topics w" for y by (simp add: list_update_beyond)
  then show ?thesis
    by (simp add: stopDht_def Let_def clearTimeout_nf upd_topic_def say_def split: option.splits)
qed

lemma quiet_stream_destroy [simp]:
  "filter loud (case x of None \<Rightarrow> [] | Some h \<Rightarrow> [StreamDestroy h]) = []"
  by (cases x) simp_all

text \<open>\<open>Topic.destroy\<close> throws only when the Topic is alive and its domain is not in the index.\<close>

lemma topic_destroy_view:
  assumes "t < length (topics w)"
    "t_destroyed (topics w ! t) \<or> map_of (domains w) (t_domain (topics w ! t)) \<noteq> None"
  shows "\<exists>w'. topic_destroy t w = Inr w' \<and> view w' = a_destroy t (view w)
           \<and> length (topics w') = length (topics w)"
proof (cases "t_destroyed (topics w ! t)")
  case True
  then show ?thesis using assms(1) by (simp add: topic_destroy_def a_destroy_def)
next
  case False
  then obtain s where s: "map_of (domains w) (t_domain (topics w ! t)) = Some s"
    using assms(2) by auto
  show ?thesis
  proof (cases "t_announce (topics w ! t)")
    case None
    then show ?thesis
      using False s assms(1)
      by (simp add: topic_destroy_def Let_def clearTimeout_nf stopDht_nf upd_topic_def
          map_get_def map_set_def map_delete_def set_delete_def process_nextTick_def nextTick_def
          a_destroy_def a_remove_def view_def tview_of_def filter_map_replace map_update)
  next
    case (Some ann)
    then show ?thesis
      using False s assms(1)
      by (simp add: topic_destroy_def Let_def clearTimeout_nf stopDht_nf upd_topic_def
          map_get_def map_set_def map_delete_def set_delete_def say_def
          a_destroy_def a_remove_def view_def tview_of_def filter_map_replace map_update)
  qed
qed

section \<open>The Domain Index under \<open>_topic\<close> and \<open>Topic.destroy\<close>\<close>

lemma map_fst_replace:
  "map fst (map (\<lambda>(k, v). if k = d then (k, f v) else (k, v)) ds) = map fst ds"
  by (induction ds) auto

lemma map_fst_replace' [simp]:
  "map fst (map (\<lambda>(k, v). if k = d then (k, s) else (k, v)) ds) = map fst ds"
  by (induction ds) auto

lemma map_of_a_remove:
  "map_of (a_remove t d ds) d' =
     (if d' = d then (case map_of ds d of None \<Rightarrow> None
         | Some s \<Rightarrow> if removeAll t s = [] then None else Some (removeAll t s))
      else map_of ds d')"
  by (auto simp: a_remove_def map_of_replace map_of_remove split: option.splits)

lemma keys_a_remove:
  "map fst (a_remove t d ds) =
     (case map_of ds d of None \<Rightarrow> map fst ds
      | Some s \<Rightarrow> if removeAll t s = [] then filter (\<lambda>k. k \<noteq> d) (map fst ds) else map fst ds)"
proof -
  have "map fst (filter (\<lambda>(k, v). k \<noteq> d) ds) = filter (\<lambda>k. k \<noteq> d) (map fst ds)"
    by (induction ds) auto
  then show ?thesis by (auto simp: a_remove_def split: option.splits)
qed

lemma distinct_a_remove: "distinct (map fst ds) \<Longrightarrow> distinct (map fst (a_remove t d ds))"
  by (simp add: keys_a_remove split: option.splits)

lemma map_of_a_add:
  "map_of (a_add t d ds) d' =
     (if d' = d then Some (case map_of ds d of None \<Rightarrow> [t] | Some s \<Rightarrow> set_add t s)
      else map_of ds d')"
  by (auto simp: a_add_def map_of_replace map_add_def split: option.splits)

lemma keys_a_add:
  "map fst (a_add t d ds) = (if map_of ds d = None then map fst ds @ [d] else map fst ds)"
  by (auto simp: a_add_def split: option.splits)

lemma distinct_a_add: "distinct (map fst ds) \<Longrightarrow> distinct (map fst (a_add t d ds))"
  by (auto simp: keys_a_add map_of_eq_None_iff)

lemma index_okD:
  assumes "index_ok v"
  shows "distinct (map fst (v_domains v))"
    "map_of (v_domains v) d = Some s \<Longrightarrow> s \<noteq> []"
    "map_of (v_domains v) d = Some s \<Longrightarrow> distinct s"
    "map_of (v_domains v) d = Some s \<Longrightarrow> t \<in> set s \<Longrightarrow> t < length (v_topics v)"
    "map_of (v_domains v) d = Some s \<Longrightarrow> t \<in> set s \<Longrightarrow> \<not> tv_destroyed (v_topics v ! t)"
    "map_of (v_domains v) d = Some s \<Longrightarrow> t \<in> set s \<Longrightarrow> tv_domain (v_topics v ! t) = d"
    "t < length (v_topics v) \<Longrightarrow> \<not> tv_destroyed (v_topics v ! t) \<Longrightarrow>
       \<exists>s. map_of (v_domains v) (tv_domain (v_topics v ! t)) = Some s \<and> t \<in> set s"
  using assms unfolding index_ok_def by blast+

lemma index_okI:
  assumes "distinct (map fst (v_domains v))"
    "\<And>d s. map_of (v_domains v) d = Some s \<Longrightarrow> s \<noteq> [] \<and> distinct s"
    "\<And>d s t. map_of (v_domains v) d = Some s \<Longrightarrow> t \<in> set s \<Longrightarrow>
        t < length (v_topics v) \<and> \<not> tv_destroyed (v_topics v ! t) \<and> tv_domain (v_topics v ! t) = d"
    "\<And>t. t < length (v_topics v) \<Longrightarrow> \<not> tv_destroyed (v_topics v ! t) \<Longrightarrow>
       \<exists>s. map_of (v_domains v) (tv_domain (v_topics v ! t)) = Some s \<and> t \<in> set s"
  shows "index_ok v"
  using assms unfolding index_ok_def by blast

lemma index_ok_destroy:
  assumes "index_ok v" "t < length (v_topics v)"
  shows "index_ok (a_destroy t v)"
proof (cases "tv_destroyed (v_topics v ! t)")
  case True
  then show ?thesis using assms by (simp add: a_destroy_def)
next
  case False
  note ok = index_okD [OF assms(1)]
  define d where "d = tv_domain (v_topics v ! t)"
  obtain s where s: "map_of (v_domains v) d = Some s" "t \<in> set s"
    using ok(7) [OF assms(2) False] unfolding d_def by blast
  have other: "t \<notin> set s'" if "map_of (v_domains v) d' = Some s'" "d' \<noteq> d" for d' s'
    using ok(6) [OF that(1)] that(2) unfolding d_def by blast
  have n: "length (v_topics (a_destroy t v)) = length (v_topics v)"
    by (simp add: a_destroy_def Let_def)
  have tp: "v_topics (a_destroy t v) ! i =
      (if i = t then (v_topics v ! t)\<lparr>tv_destroyed := True\<rparr> else v_topics v ! i)" for i
    using False assms(2) by (simp add: a_destroy_def Let_def nth_list_update)
  have dm: "v_domains (a_destroy t v) = a_remove t d (v_domains v)"
    using False by (simp add: a_destroy_def Let_def d_def)
  have cases: "(d' = d \<and> s' = removeAll t s \<and> s' \<noteq> []) \<or> (d' \<noteq> d \<and> map_of (v_domains v) d' = Some s')"
    if "map_of (a_remove t d (v_domains v)) d' = Some s'" for d' s'
    using that s(1) by (simp add: map_of_a_remove split: if_splits)
  show ?thesis
  proof (rule index_okI; unfold n dm)
    show "distinct (map fst (a_remove t d (v_domains v)))"
      using ok(1) by (rule distinct_a_remove)
  next
    fix d' s' assume a: "map_of (a_remove t d (v_domains v)) d' = Some s'"
    from cases [OF a] show "s' \<noteq> [] \<and> distinct s'"
    proof
      assume "d' = d \<and> s' = removeAll t s \<and> s' \<noteq> []"
      then show ?thesis using ok(3) [OF s(1)] by (auto simp: distinct_removeAll)
    next
      assume "d' \<noteq> d \<and> map_of (v_domains v) d' = Some s'"
      then show ?thesis using ok(2,3) by blast
    qed
  next
    fix d' s' t' assume a: "map_of (a_remove t d (v_domains v)) d' = Some s'" and t': "t' \<in> set s'"
    from cases [OF a]
    have "t' \<noteq> t \<and> map_of (v_domains v) d' \<noteq> None \<and> t' \<in> set (the (map_of (v_domains v) d'))"
    proof
      assume "d' = d \<and> s' = removeAll t s \<and> s' \<noteq> []"
      then show ?thesis using t' s(1) by auto
    next
      assume c: "d' \<noteq> d \<and> map_of (v_domains v) d' = Some s'"
      then have "t \<notin> set s'" using other by blast
      then show ?thesis using c t' by auto
    qed
    then obtain s0 where "t' \<noteq> t" "map_of (v_domains v) d' = Some s0" "t' \<in> set s0" by auto
    then show "t' < length (v_topics v) \<and> \<not> tv_destroyed (v_topics (a_destroy t v) ! t')
         \<and> tv_domain (v_topics (a_destroy t v) ! t') = d'"
      using ok(4,5,6) by (simp add: tp)
  next
    fix t' assume t': "t' < length (v_topics v)" "\<not> tv_destroyed (v_topics (a_destroy t v) ! t')"
    then have ne: "t' \<noteq> t" and al: "\<not> tv_destroyed (v_topics v ! t')"
      by (auto simp: tp split: if_splits)
    obtain s' where s': "map_of (v_domains v) (tv_domain (v_topics v ! t')) = Some s'" "t' \<in> set s'"
      using ok(7) [OF t'(1) al] by blast
    show "\<exists>s. map_of (a_remove t d (v_domains v)) (tv_domain (v_topics (a_destroy t v) ! t')) = Some s
            \<and> t' \<in> set s"
    proof (cases "tv_domain (v_topics v ! t') = d")
      case True
      then have "s' = s" using s' s by simp
      then have m: "t' \<in> set (removeAll t s)" using s' ne by simp
      then have "removeAll t s \<noteq> []" by (metis empty_iff list.set(1))
      then show ?thesis using True s(1) ne m by (simp add: tp map_of_a_remove)
    next
      case False
      then show ?thesis using s' ne by (simp add: tp map_of_a_remove)
    qed
  qed
qed

section \<open>Streams, timers and ticks\<close>

lemma timer_task_mono: "timer_task n f \<Longrightarrow> n \<le> m \<Longrightarrow> timer_task m f"
  by (cases f) auto

lemma tick_task_mono: "tick_task n f \<Longrightarrow> n \<le> m \<Longrightarrow> tick_task m f"
  by (cases f) auto

lemma handles_okD:
  assumes "handles_ok w"
  shows "h < length (streams w) \<Longrightarrow> fst (streams w ! h) < length (topics w)"
    "h < length (timers w) \<Longrightarrow> timers w ! h = Some (f, e) \<Longrightarrow> timer_task (length (topics w)) f"
    "f \<in> set (ticks w) \<Longrightarrow> tick_task (length (topics w)) f"
    "t \<in> set (unannouncing w) \<Longrightarrow> t < length (topics w)"
  using assms unfolding handles_ok_def by blast+

text \<open>Operations that leave the handles valid.\<close>

lemma handles_ok_trace [simp]: "handles_ok (w\<lparr>trace := x\<rparr>) = handles_ok w"
  by (simp add: handles_ok_def)

lemma handles_ok_missing [simp]: "handles_ok (w\<lparr>missing := x\<rparr>) = handles_ok w"
  by (simp add: handles_ok_def)

lemma handles_ok_domains [simp]: "handles_ok (w\<lparr>domains := x\<rparr>) = handles_ok w"
  by (simp add: handles_ok_def)

lemma handles_ok_destroyed [simp]: "handles_ok (w\<lparr>destroyed := x\<rparr>) = handles_ok w"
  by (simp add: handles_ok_def)

lemma handles_ok_say [simp]: "handles_ok (say e w) = handles_ok w"
  by (simp add: say_def)

lemma handles_ok_upd [simp]: "handles_ok (upd_topic t f w) = handles_ok w"
  by (simp add: handles_ok_def upd_topic_def)

lemma nth_cleared: "k < length xs \<Longrightarrow> (xs[h := None]) ! k = Some y \<Longrightarrow> xs ! k = Some y"
  by (cases "h = k") auto

lemma handles_ok_clear_one: "handles_ok w \<Longrightarrow> handles_ok (w\<lparr>timers := (timers w)[h := None]\<rparr>)"
  unfolding handles_ok_def by simp (metis nth_cleared)

lemma handles_ok_clear: "handles_ok w \<Longrightarrow> handles_ok (clearTimeout h w)"
  by (cases h) (simp_all add: clearTimeout_def handles_ok_clear_one)

lemma handles_ok_timer:
  "handles_ok w \<Longrightarrow> timer_task (length (topics w)) f \<Longrightarrow>
   handles_ok (w\<lparr>timers := timers w @ [Some (f, e)]\<rparr>)"
  by (auto simp: handles_ok_def nth_append)

lemma handles_ok_tick:
  "handles_ok w \<Longrightarrow> tick_task (length (topics w)) f \<Longrightarrow> handles_ok (nextTick f w)"
  by (auto simp: handles_ok_def nextTick_def)

lemma handles_ok_pop: "handles_ok w \<Longrightarrow> ticks w = f # fs \<Longrightarrow> handles_ok (w\<lparr>ticks := fs\<rparr>)"
  by (auto simp: handles_ok_def)

lemma handles_ok_dht_loop:
  "handles_ok w \<Longrightarrow> t < length (topics w) \<Longrightarrow> handles_ok (dht_loop t w)"
  by (auto simp: handles_ok_def dht_loop_def Let_def upd_topic_def say_def nth_append)

lemma handles_ok_mdns_loop:
  "handles_ok w \<Longrightarrow> t < length (topics w) \<Longrightarrow> handles_ok (mdns_loop t w)"
  by (auto simp: handles_ok_def mdns_loop_def Let_def upd_topic_def say_def notify_def
      setTimeout_def nth_append)

lemma handles_ok_dht_done:
  "handles_ok w \<Longrightarrow> h < length (streams w) \<Longrightarrow> handles_ok (dht_done h e w)"
  by (auto simp: handles_ok_def dht_done_def Let_def upd_topic_def say_def notify_def
      setTimeout_def nth_append nth_list_update)

lemma handles_ok_stopDht: "handles_ok w \<Longrightarrow> handles_ok (stopDht t w)"
  by (auto simp: stopDht_def Let_def intro!: handles_ok_clear split: option.splits)

lemma length_topics_quiet [simp]:
  "length (topics (dht_loop t w)) = length (topics w)"
  "length (topics (mdns_loop t w)) = length (topics w)"
  "length (topics (stopDht t w)) = length (topics w)"
  "length (topics (dht_done h e w)) = length (topics w)"
  "length (topics (topic_update t w)) = length (topics w)"
  using view_fields(6) [of "dht_loop t w"] view_fields(6) [of "mdns_loop t w"]
    view_fields(6) [of "stopDht t w"] view_fields(6) [of "dht_done h e w"]
    view_fields(6) [of "topic_update t w"]
  by simp_all

lemma handles_ok_topic_update:
  "handles_ok w \<Longrightarrow> t < length (topics w) \<Longrightarrow> handles_ok (topic_update t w)"
  by (auto simp: topic_update_def Let_def startDht_def startMdns_def
      intro!: handles_ok_mdns_loop handles_ok_clear handles_ok_dht_loop split: option.splits)

section \<open>A new Topic\<close>

lemma new_Topic_view:
  assumes "new_Topic key opts rnd w = (t, w')"
  shows "view w' = (view w)\<lparr>v_topics := v_topics (view w) @
            [\<lparr>tv_destroyed = False, tv_domain = domain_of w key,
              tv_announcing = (case opts of None \<Rightarrow> False | Some o1 \<Rightarrow> o_announce o1 \<noteq> None),
              tv_on_peer = [], tv_on_close = []\<rparr>]\<rparr>"
  using assms
  by (auto simp: new_Topic_def Let_def startDht_def startMdns_def split: option.splits)
     (simp_all add: view_def tview_of_def)

lemma handles_ok_grow:
  assumes "handles_ok w"
  shows "handles_ok (w\<lparr>topics := topics w @ [x]\<rparr>)"
proof -
  have m: "timer_task (length (topics w)) f \<Longrightarrow> timer_task (Suc (length (topics w))) f"
    "tick_task (length (topics w)) f \<Longrightarrow> tick_task (Suc (length (topics w))) f" for f
    by (erule timer_task_mono tick_task_mono; simp)+
  show ?thesis
    using handles_okD [OF assms] unfolding handles_ok_def
    by (simp add: less_SucI m)
qed

lemma new_Topic_handles:
  assumes "new_Topic key opts rnd w = (t, w')" "handles_ok w"
  shows "handles_ok w'"
proof -
  define this where "this = \<lparr>t_key = key, t_announce = o_announce (case opts of None \<Rightarrow> \<lparr>o_localPort = None, o_lookup = False, o_announce = None\<rparr>
                  | Some o1 \<Rightarrow> o1), t_destroyed = False,
                  t_id = id_prefix @ rnd, t_timeoutDht = None, t_timeoutMdns = None,
                  t_stream = None, t_domain = domain_of w key,
                  t_answer = (if (case o_localPort (case opts of None \<Rightarrow> \<lparr>o_localPort = None, o_lookup = False, o_announce = None\<rparr>
                  | Some o1 \<Rightarrow> o1) of None \<Rightarrow> 0 | Some n \<Rightarrow> n) \<noteq> 0 then Some (SRV (domain_of w key) ''0.0.0.0'' (case o_localPort (case opts of None \<Rightarrow> \<lparr>o_localPort = None, o_lookup = False, o_announce = None\<rparr>
                  | Some o1 \<Rightarrow> o1) of None \<Rightarrow> 0 | Some n \<Rightarrow> n)) else None),
                  t_on_peer = [], t_on_close = []\<rparr>"
  define w0 where "w0 = w\<lparr>topics := topics w @ [this]\<rparr>"
  have h0: "handles_ok w0"
    unfolding w0_def by (rule handles_ok_grow [OF assms(2)])
  have l0: "length (topics w) < length (topics w0)" by (simp add: w0_def)
  have h1: "handles_ok (dht_loop (length (topics w)) w0)"
    by (rule handles_ok_dht_loop [OF h0 l0])
  have h2: "handles_ok (mdns_loop (length (topics w)) (dht_loop (length (topics w)) w0))"
    by (rule handles_ok_mdns_loop [OF h1]) (simp add: l0)
  show ?thesis
    using assms(1) h1 h2 unfolding new_Topic_def Let_def startDht_def startMdns_def
      this_def [symmetric] w0_def [symmetric]
    by (auto split: if_splits)
qed

lemma tld_new_Topic: "new_Topic key opts rnd w = (t, w') \<Longrightarrow> tld w' = tld w"
  using view_fields(7) [of w'] by (simp add: new_Topic_view)

lemma map_replace_absent:
  "map_of ds d = None \<Longrightarrow> map (\<lambda>(k, v). if k = d then (k, s) else (k, v)) ds = ds"
  by (induction ds) (auto split: if_splits)

lemma index_insert:
  "map_set d (set_add t (case map_get d (if map_get d w1 = None then map_set d [] w1 else w1) of
       None \<Rightarrow> [] | Some s \<Rightarrow> s)) (if map_get d w1 = None then map_set d [] w1 else w1)
   = w1\<lparr>domains := a_add t d (domains w1)\<rparr>"
proof (cases "map_of (domains w1) d")
  case None
  then show ?thesis
    by (simp add: map_get_def map_set_def a_add_def set_add_def map_replace_absent map_add_def)
next
  case (Some s)
  then show ?thesis
    by (simp add: map_get_def map_set_def a_add_def)
qed

lemma topic_of_view:
  assumes "topic_of key opts rnd w = (t, w')"
  shows "t = length (topics w)" "length (topics w') = Suc (length (topics w))"
    "view w' = (view w)\<lparr>v_topics := v_topics (view w) @
            [\<lparr>tv_destroyed = False, tv_domain = domain_of w key,
              tv_announcing = (case opts of None \<Rightarrow> False | Some o1 \<Rightarrow> o_announce o1 \<noteq> None),
              tv_on_peer = [], tv_on_close = []\<rparr>],
          v_domains := a_add (length (topics w)) (domain_of w key) (domains w)\<rparr>"
proof -
  obtain w1 where n: "new_Topic key opts rnd w = (t, w1)"
    using assms by (auto simp: topic_of_def Let_def split: prod.splits)
  note v1 = new_Topic_view [OF n]
  have d: "domain_of w1 key = domain_of w key"
    by (simp add: domain_of_def tld_new_Topic [OF n])
  have dm: "domains w1 = domains w" using view_fields(2) [of w1] by (simp add: v1)
  show t: "t = length (topics w)" using new_Topic_fields(1) [OF n] .
  have l1: "length (topics w1) = Suc (length (topics w))" using new_Topic_fields(2) [OF n] .
  have w': "w' = w1\<lparr>domains := a_add t (domain_of w key) (domains w)\<rparr>"
    using assms n by (simp add: topic_of_def Let_def index_insert d dm)
  show "length (topics w') = Suc (length (topics w))"
    using l1 by (simp add: w')
  have "view w' = (view w1)\<lparr>v_domains := a_add t (domain_of w key) (domains w)\<rparr>"
    by (simp add: w' view_def)
  then show "view w' = (view w)\<lparr>v_topics := v_topics (view w) @
            [\<lparr>tv_destroyed = False, tv_domain = domain_of w key,
              tv_announcing = (case opts of None \<Rightarrow> False | Some o1 \<Rightarrow> o_announce o1 \<noteq> None),
              tv_on_peer = [], tv_on_close = []\<rparr>],
          v_domains := a_add (length (topics w)) (domain_of w key) (domains w)\<rparr>"
    by (simp add: v1 t)
qed

lemma topic_of_handles:
  assumes "topic_of key opts rnd w = (t, w')" "handles_ok w"
  shows "handles_ok w'"
proof -
  obtain w1 where n: "new_Topic key opts rnd w = (t, w1)"
    using assms by (auto simp: topic_of_def Let_def split: prod.splits)
  have "handles_ok w1" using new_Topic_handles [OF n assms(2)] .
  then show ?thesis using assms(1) n by (auto simp: topic_of_def Let_def index_insert)
qed

lemma index_ok_frame [simp]:
  "index_ok (v\<lparr>v_trace := a\<rparr>) = index_ok v"
  "index_ok (v\<lparr>v_missing := b\<rparr>) = index_ok v"
  "index_ok (v\<lparr>v_ticks := c\<rparr>) = index_ok v"
  "index_ok (v\<lparr>v_unannouncing := d\<rparr>) = index_ok v"
  "index_ok (v\<lparr>v_destroyed := e\<rparr>) = index_ok v"
  by (simp_all add: index_ok_def)

lemma index_ok_listeners:
  assumes "tv_destroyed y = tv_destroyed (v_topics v ! t)" "tv_domain y = tv_domain (v_topics v ! t)"
  shows "index_ok (v\<lparr>v_topics := (v_topics v)[t := y]\<rparr>) = index_ok v"
proof -
  have e: "tv_destroyed ((v_topics v)[t := y] ! i) = tv_destroyed (v_topics v ! i)
       \<and> tv_domain ((v_topics v)[t := y] ! i) = tv_domain (v_topics v ! i)" for i
  proof (cases "i = t \<and> t < length (v_topics v)")
    case True
    then show ?thesis using assms by simp
  next
    case False
    then have "(v_topics v)[t := y] ! i = v_topics v ! i"
      by (cases "t < length (v_topics v)") (auto simp: list_update_beyond)
    then show ?thesis by simp
  qed
  show ?thesis unfolding index_ok_def by (simp add: e)
qed

lemma index_ok_create:
  assumes "index_ok v" "\<not> tv_destroyed x"
  shows "index_ok (v\<lparr>v_topics := v_topics v @ [x],
                     v_domains := a_add (length (v_topics v)) (tv_domain x) (v_domains v)\<rparr>)"
proof -
  note ok = index_okD [OF assms(1)]
  define n where "n = length (v_topics v)"
  define d where "d = tv_domain x"
  have fresh: "n \<notin> set s" if "map_of (v_domains v) d' = Some s" for d' s
    using ok(4) [OF that] unfolding n_def by blast
  have cases: "(d' = d \<and> s' = (case map_of (v_domains v) d of None \<Rightarrow> [n] | Some s \<Rightarrow> s @ [n]))
       \<or> (d' \<noteq> d \<and> map_of (v_domains v) d' = Some s')"
    if "map_of (a_add n d (v_domains v)) d' = Some s'" for d' s'
  proof (cases "d' = d")
    case True
    show ?thesis
    proof (cases "map_of (v_domains v) d")
      case None
      then show ?thesis using that True by (simp add: map_of_a_add)
    next
      case (Some s)
      then have "set_add n s = s @ [n]" using fresh by (simp add: set_add_def)
      then show ?thesis using that True Some by (simp add: map_of_a_add)
    qed
  next
    case False
    then show ?thesis using that by (simp add: map_of_a_add)
  qed
  define v' where "v' = v\<lparr>v_topics := v_topics v @ [x], v_domains := a_add n d (v_domains v)\<rparr>"
  have dm: "v_domains v' = a_add n d (v_domains v)" and tp: "v_topics v' = v_topics v @ [x]"
    by (simp_all add: v'_def)
  have "index_ok v'"
  proof (rule index_okI; unfold dm tp)
    show "distinct (map fst (a_add n d (v_domains v)))"
      using ok(1) by (rule distinct_a_add)
  next
    fix d' s' assume a: "map_of (a_add n d (v_domains v)) d' = Some s'"
    from cases [OF a] show "s' \<noteq> [] \<and> distinct s'"
    proof
      assume "d' = d \<and> s' = (case map_of (v_domains v) d of None \<Rightarrow> [n] | Some s \<Rightarrow> s @ [n])"
      then show ?thesis using ok(3) fresh by (auto split: option.splits)
    next
      assume "d' \<noteq> d \<and> map_of (v_domains v) d' = Some s'"
      then show ?thesis using ok(2,3) by blast
    qed
  next
    fix d' s' t assume a: "map_of (a_add n d (v_domains v)) d' = Some s'" and t: "t \<in> set s'"
    from cases [OF a]
    have "(t = n \<and> d' = d) \<or> (\<exists>s0. map_of (v_domains v) d' = Some s0 \<and> t \<in> set s0)"
      using t by (auto split: option.splits)
    then show "t < length (v_topics v @ [x]) \<and> \<not> tv_destroyed ((v_topics v @ [x]) ! t) \<and> tv_domain ((v_topics v @ [x]) ! t) = d'"
    proof
      assume "t = n \<and> d' = d"
      then show ?thesis using assms(2) by (simp add: n_def d_def)
    next
      assume "\<exists>s0. map_of (v_domains v) d' = Some s0 \<and> t \<in> set s0"
      then obtain s0 where s0: "map_of (v_domains v) d' = Some s0" "t \<in> set s0" by blast
      have "t < n" using ok(4) [OF s0] by (simp add: n_def)
      then show ?thesis using ok(5,6) [OF s0] by (simp add: nth_append n_def)
    qed
  next
    fix t assume t: "t < length (v_topics v @ [x])" "\<not> tv_destroyed ((v_topics v @ [x]) ! t)"
    show "\<exists>s. map_of (a_add n d (v_domains v)) (tv_domain ((v_topics v @ [x]) ! t)) = Some s \<and> t \<in> set s"
    proof (cases "t = n")
      case True
      then show ?thesis by (auto simp: map_of_a_add nth_append n_def d_def set_add_def split: option.splits)
    next
      case False
      then have tn: "t < length (v_topics v)" using t(1) by (simp add: n_def)
      then have al: "\<not> tv_destroyed (v_topics v ! t)" using t(2) by (simp add: nth_append)
      obtain s where s: "map_of (v_domains v) (tv_domain (v_topics v ! t)) = Some s" "t \<in> set s"
        using ok(7) [OF tn al] by blast
      then show ?thesis using tn by (auto simp: map_of_a_add nth_append set_add_def)
    qed
  qed
  then show ?thesis by (simp add: v'_def n_def d_def)
qed

text \<open>Loops keep what each turn keeps.\<close>

lemma for_each_keeps:
  assumes "\<And>x w. x \<in> set xs \<Longrightarrow> P w \<Longrightarrow> \<exists>w'. f x w = Inr w' \<and> P w'" "P w"
  shows "\<exists>w'. for_each f xs w = Inr w' \<and> P w'"
  using assms
proof (induction xs arbitrary: w)
  case Nil
  then show ?case by simp
next
  case (Cons x xs)
  obtain w1 where w1: "f x w = Inr w1" "P w1" using Cons.prems(1) [of x w] Cons.prems(2) by auto
  have "\<exists>w'. for_each f xs w1 = Inr w' \<and> P w'"
    by (rule Cons.IH) (use Cons.prems(1) w1(2) in auto)
  then show ?case using w1(1) by simp
qed

lemma for_topics_keeps:
  assumes "\<And>t w. P w \<Longrightarrow> map_get d w \<noteq> None \<Longrightarrow> t \<in> set (the (map_get d w))
      \<Longrightarrow> \<exists>w'. f t w = Inr w' \<and> P w'" "P w"
  shows "\<exists>w'. for_topics d f ts w = Inr w' \<and> P w'"
  using assms
proof (induction ts arbitrary: w)
  case Nil
  then show ?case by simp
next
  case (Cons t ts)
  define b where "b \<longleftrightarrow> t \<in> set (case map_get d w of None \<Rightarrow> [] | Some s \<Rightarrow> s)"
  have u: "for_topics d f (t # ts) w =
      (if b then (case f t w of Inl e \<Rightarrow> Inl e | Inr w' \<Rightarrow> for_topics d f ts w')
       else for_topics d f ts w)"
    unfolding b_def by (rule for_topics.simps)
  show ?case
  proof (cases b)
    case True
    then have "map_get d w \<noteq> None" "t \<in> set (the (map_get d w))"
      unfolding b_def by (cases "map_get d w"; simp)+
    then obtain w1 where w1: "f t w = Inr w1" "P w1" using Cons.prems by blast
    have "\<exists>w'. for_topics d f ts w1 = Inr w' \<and> P w'"
      by (rule Cons.IH) (use Cons.prems(1) w1(2) in auto)
    then show ?thesis unfolding u using w1(1) True by simp
  next
    case False
    have "\<exists>w'. for_topics d f ts w = Inr w' \<and> P w'"
      by (rule Cons.IH) (use Cons.prems in auto)
    then show ?thesis unfolding u using False by simp
  qed
qed

text \<open>What the abstract operations leave alone.\<close>

lemma a_destroy_length [simp]: "length (v_topics (a_destroy t v)) = length (v_topics v)"
  by (simp add: a_destroy_def Let_def)

lemma a_destroy_frame [simp]:
  "v_trace (a_destroy t v) = v_trace v" "v_missing (a_destroy t v) = v_missing v"
  "v_destroyed (a_destroy t v) = v_destroyed v" "v_tld (a_destroy t v) = v_tld v"
  by (simp_all add: a_destroy_def Let_def)

lemma a_destroy_topic:
  "t < length (v_topics v) \<Longrightarrow>
   v_topics (a_destroy t v) ! i =
     (if i = t then (v_topics v ! t)\<lparr>tv_destroyed := True\<rparr> else v_topics v ! i)"
  by (simp add: a_destroy_def Let_def nth_list_update)

lemma a_destroy_listeners [simp]:
  "tv_on_peer (v_topics (a_destroy t v) ! i) = tv_on_peer (v_topics v ! i)"
  "tv_on_close (v_topics (a_destroy t v) ! i) = tv_on_close (v_topics v ! i)"
  "tv_domain (v_topics (a_destroy t v) ! i) = tv_domain (v_topics v ! i)"
  "tv_announcing (v_topics (a_destroy t v) ! i) = tv_announcing (v_topics v ! i)"
  by (cases "t < length (v_topics v)"; cases "i = t";
      simp add: a_destroy_def Let_def list_update_beyond)+

lemma a_destroy_destroyed:
  "t < length (v_topics v) \<Longrightarrow>
   tv_destroyed (v_topics (a_destroy t v) ! i) = (i = t \<or> tv_destroyed (v_topics v ! i))"
  by (auto simp: a_destroy_def Let_def nth_list_update)

section \<open>The steps of the event loop, observed\<close>

text \<open>
  Each operation that emits, on a well-formed session: it does not throw, the session stays
  well-formed, and the observable part changes as the operation on it says.
\<close>

lemma clearTimeout_nf': "clearTimeout h w = w\<lparr>timers := clear_timer h (timers w)\<rparr>"
  by (simp add: clearTimeout_nf clear_timer_def)

lemma stopDht_nf':
  "stopDht t w =
     w\<lparr>timers := clear_timer (t_timeoutDht (topics w ! t)) (timers w),
       topics := (topics w)[t := (topics w ! t)\<lparr>t_timeoutDht := None\<rparr>],
       trace := trace w @ destroy_note (t_stream (topics w ! t))\<rparr>"
  by (simp add: stopDht_nf clear_timer_def destroy_note_def)

lemma topic_destroy_nf:
  assumes "t < length (topics w)" "\<not> t_destroyed (topics w ! t)"
    "map_of (domains w) (t_domain (topics w ! t)) = Some s"
  shows "topic_destroy t w =
     Inr (w\<lparr>topics := (topics w)[t := (topics w ! t)\<lparr>t_destroyed := True, t_timeoutDht := None\<rparr>],
            timers := clear_timer (t_timeoutMdns (topics w ! t))
                        (clear_timer (t_timeoutDht (topics w ! t)) (timers w)),
            trace := trace w @ destroy_note (t_stream (topics w ! t))
                       @ (case t_announce (topics w ! t) of None \<Rightarrow> []
                          | Some ann \<Rightarrow> [DhtUnannounce (t_key (topics w ! t)) ann]),
            domains := a_remove t (t_domain (topics w ! t)) (domains w),
            ticks := (if t_announce (topics w ! t) = None then ticks w @ [EmitClose t] else ticks w),
            unannouncing := (if t_announce (topics w ! t) = None then unannouncing w
                             else unannouncing w @ [t])\<rparr>)"
proof (cases "t_announce (topics w ! t)")
  case None
  then show ?thesis
    using assms
    by (simp add: topic_destroy_def Let_def clearTimeout_nf' stopDht_nf' upd_topic_def
          map_get_def map_set_def map_delete_def set_delete_def process_nextTick_def nextTick_def
          a_remove_def filter_map_replace)
next
  case (Some ann)
  then show ?thesis
    using assms
    by (simp add: topic_destroy_def Let_def clearTimeout_nf' stopDht_nf' upd_topic_def
          map_get_def map_set_def map_delete_def set_delete_def say_def
          a_remove_def filter_map_replace)
qed

lemma handles_ok_cleared:
  assumes "handles_ok w"
  shows "handles_ok (w\<lparr>timers := clear_timer ho (timers w)\<rparr>)"
  using handles_ok_clear [OF assms, of ho] by (simp add: clearTimeout_nf')

lemma topic_destroy_handles:
  assumes "handles_ok w" "t < length (topics w)" "topic_destroy t w = Inr w'"
  shows "handles_ok w'"
proof (cases "t_destroyed (topics w ! t)")
  case True
  then show ?thesis using assms by (simp add: topic_destroy_def)
next
  case False
  show ?thesis
  proof (cases "map_of (domains w) (t_domain (topics w ! t))")
    case None
    then show ?thesis using assms(3) False
      by (simp add: topic_destroy_def Let_def map_get_def clearTimeout_nf' stopDht_nf' upd_topic_def assms(2))
  next
    case (Some s)
    have h2: "handles_ok (w\<lparr>timers := clear_timer (t_timeoutMdns (topics w ! t))
                        (clear_timer (t_timeoutDht (topics w ! t)) (timers w))\<rparr>)"
      using handles_ok_cleared [OF handles_ok_cleared [OF assms(1)]] by simp
    show ?thesis
      using assms(3) h2 assms(2) unfolding topic_destroy_nf [OF assms(2) False Some]
      by (auto simp: handles_ok_def split: if_splits)
  qed
qed

lemma topic_destroy_sim:
  assumes "sane w" "t < length (topics w)"
  shows "\<exists>w'. topic_destroy t w = Inr w' \<and> view w' = a_destroy t (view w) \<and> sane w'
           \<and> length (topics w') = length (topics w)"
proof -
  have ok: "index_ok (view w)" and h: "handles_ok w" using assms(1) by (simp_all add: sane_def)
  have "t_destroyed (topics w ! t) \<or> map_of (domains w) (t_domain (topics w ! t)) \<noteq> None"
    using index_okD(7) [OF ok, of t] assms(2) by auto
  from topic_destroy_view [OF assms(2) this]
  obtain w' where w': "topic_destroy t w = Inr w'" "view w' = a_destroy t (view w)"
    "length (topics w') = length (topics w)" by blast
  have "handles_ok w'" using topic_destroy_handles [OF h assms(2) w'(1)] .
  moreover have "index_ok (view w')"
    unfolding w'(2) using index_ok_destroy [OF ok] assms(2) by simp
  ultimately show ?thesis using w' by (auto simp: sane_def)
qed

lemma run_peer_listener_sim:
  assumes "sane w" "t < length (topics w)"
  shows "\<exists>w'. run_peer_listener t p l w = Inr w' \<and> view w' = a_run_peer t p l (view w) \<and> sane w'
           \<and> length (topics w') = length (topics w)"
proof (cases l)
  case CallerDestroys
  then show ?thesis using topic_destroy_sim [OF assms] by simp
next
  case (OnPeer cb)
  define w2 where "w2 = upd_topic t (\<lambda>x. x\<lparr>t_on_close := remove1 (OnClose cb) (t_on_close x)\<rparr>)
      (upd_topic t (\<lambda>x. x\<lparr>t_on_peer := remove1 (OnPeer cb) (t_on_peer x)\<rparr>) w)"
  define x where "x = v_topics (view w) ! t"
  have v2: "view w2 = (view w)\<lparr>v_topics := (v_topics (view w))[t := x\<lparr>tv_on_peer := remove1 (OnPeer cb) (tv_on_peer x),
                     tv_on_close := remove1 (OnClose cb) (tv_on_close x)\<rparr>]\<rparr>"
    using assms(2) by (simp add: w2_def view_def x_def tview_of_def upd_topic_def map_update)
  have l2: "length (topics w2) = length (topics w)" by (simp add: w2_def upd_topic_def)
  have "index_ok (view w2)"
    unfolding v2 using assms(1) by (subst index_ok_listeners) (simp_all add: x_def sane_def)
  then have s2: "sane w2" using assms(1) by (simp add: sane_def w2_def)
  obtain w3 where w3: "topic_destroy t w2 = Inr w3" "view w3 = a_destroy t (view w2)" "sane w3"
    "length (topics w3) = length (topics w2)"
    using topic_destroy_sim [OF s2] assms(2) l2 by auto
  have r: "run_peer_listener t p l w = Inr (say (Callback cb (Found p)) w3)"
    using w3(1) by (simp add: OnPeer w2_def Let_def)
  have "view (say (Callback cb (Found p)) w3) = a_run_peer t p l (view w)"
    by (simp add: view_say w3(2) v2 OnPeer Let_def x_def)
  moreover have "sane (say (Callback cb (Found p)) w3)"
    using w3(3) by (simp add: sane_def view_say)
  ultimately show ?thesis using r w3(4) l2 by (simp add: say_def)
qed

lemma for_each_sim:
  assumes "\<And>x w. Q w \<Longrightarrow> \<exists>w'. f x w = Inr w' \<and> view w' = g x (view w) \<and> Q w'" "Q w"
  shows "\<exists>w'. for_each f xs w = Inr w' \<and> view w' = fold g xs (view w) \<and> Q w'"
  using assms(2)
proof (induction xs arbitrary: w)
  case Nil
  then show ?case by simp
next
  case (Cons x xs)
  obtain w1 where w1: "f x w = Inr w1" "view w1 = g x (view w)" "Q w1"
    using assms(1) [OF Cons.prems] by blast
  obtain w' where "for_each f xs w1 = Inr w'" "view w' = fold g xs (view w1)" "Q w'"
    using Cons.IH [OF w1(3)] by blast
  then show ?case using w1 by simp
qed

lemma emit_peer_sim:
  assumes "sane w" "t < length (topics w)"
  shows "\<exists>w'. emit_peer t p w = Inr w' \<and> view w' = a_emit_peer t p (view w) \<and> sane w'
           \<and> length (topics w') = length (topics w)"
proof -
  define w0 where "w0 = say (Emit t (Peer p)) w"
  have "length (topics w0) = length (topics w)" by (simp add: w0_def say_def)
  moreover have "sane w0" using assms(1) by (simp add: w0_def sane_def view_say)
  ultimately have q0: "sane w0 \<and> length (topics w0) = length (topics w)" by simp
  have "\<exists>w'. for_each (run_peer_listener t p) (t_on_peer (topics w ! t)) w0 = Inr w'
      \<and> view w' = fold (a_run_peer t p) (t_on_peer (topics w ! t)) (view w0)
      \<and> (sane w' \<and> length (topics w') = length (topics w))"
  proof (rule for_each_sim [where Q = "\<lambda>w'. sane w' \<and> length (topics w') = length (topics w)", OF _ q0])
    fix l w1 assume "sane w1 \<and> length (topics w1) = length (topics w)"
    then show "\<exists>w'. run_peer_listener t p l w1 = Inr w' \<and> view w' = a_run_peer t p l (view w1)
        \<and> sane w' \<and> length (topics w') = length (topics w)"
      using run_peer_listener_sim [of w1 t p l] assms(2) by auto
  qed
  moreover have "view w0 = (view w)\<lparr>v_trace := v_trace (view w) @ [Emit t (Peer p)]\<rparr>"
    by (simp add: w0_def view_say)
  ultimately show ?thesis
    using assms(2) by (simp add: emit_peer_def a_emit_peer_def w0_def)
qed

lemma count_list_remove1:
  "count_list (remove1 x xs) y = (if x = y then count_list xs y - 1 else count_list xs y)"
  by (induction xs) auto

lemma a_run_peer_length [simp]: "length (v_topics (a_run_peer t p l v)) = length (v_topics v)"
  by (cases l) (simp_all add: Let_def)

lemma a_run_peer_on_peer:
  "t < length (v_topics v) \<Longrightarrow>
   tv_on_peer (v_topics (a_run_peer t p l v) ! t) =
     (case l of OnPeer cb \<Rightarrow> remove1 (OnPeer cb) (tv_on_peer (v_topics v ! t))
      | CallerDestroys \<Rightarrow> tv_on_peer (v_topics v ! t))"
  by (cases l) (simp_all add: Let_def)

lemma fold_run_peer_count:
  "t < length (v_topics v) \<Longrightarrow>
   count_list (tv_on_peer (v_topics (fold (a_run_peer t p) ls v) ! t)) (OnPeer cb)
     = count_list (tv_on_peer (v_topics v ! t)) (OnPeer cb) - count_list ls (OnPeer cb)"
proof (induction ls arbitrary: v)
  case Nil
  then show ?case by simp
next
  case (Cons l ls)
  have "t < length (v_topics (a_run_peer t p l v))" using Cons.prems by simp
  from Cons.IH [OF this] show ?case
    using Cons.prems
    by (cases l) (simp_all add: a_run_peer_on_peer count_list_remove1 del: a_run_peer.simps)
qed

lemma a_emit_peer_no_onpeer:
  assumes "t < length (v_topics v)"
  shows "OnPeer cb \<notin> set (tv_on_peer (v_topics (a_emit_peer t p v) ! t))"
proof -
  have "count_list (tv_on_peer (v_topics (a_emit_peer t p v) ! t)) (OnPeer cb) = 0"
    unfolding a_emit_peer_def using assms by (subst fold_run_peer_count) simp_all
  then show ?thesis by (simp add: count_list_0_iff)
qed

lemma ondhtdata_sim:
  assumes "sane w" "t < length (topics w)"
  shows "\<exists>w'. ondhtdata t d w = Inr w' \<and> sane w' \<and> (a_trans C)\<^sup>*\<^sup>* (view w) (view w')"
proof (cases "t_destroyed (topics w ! t)")
  case True
  then show ?thesis using assms(1) by (auto simp: ondhtdata_def)
next
  case False
  define P where "P = (\<lambda>w'. sane w' \<and> length (topics w') = length (topics w)
      \<and> (a_trans C)\<^sup>*\<^sup>* (view w) (view w')
      \<and> (t_destroyed (topics w' ! t) \<longrightarrow> (\<forall>cb. OnPeer cb \<notin> set (t_on_peer (topics w' ! t)))))"
  have step: "\<exists>w'. emit_peer t p w1 = Inr w' \<and> P w'" if h: "P w1" for p w1
  proof -
    have s1: "sane w1" and l1: "t < length (topics w1)" using h assms(2) by (simp_all add: P_def)
    obtain w2 where w2: "emit_peer t p w1 = Inr w2" "view w2 = a_emit_peer t p (view w1)" "sane w2"
      "length (topics w2) = length (topics w1)"
      using emit_peer_sim [OF s1 l1] by blast
    have "a_trans C (view w1) (a_emit_peer t p (view w1))"
      by (rule a_trans.peer) (use h l1 in \<open>simp_all add: P_def\<close>)
    then have r: "(a_trans C)\<^sup>*\<^sup>* (view w) (view w2)"
      using h unfolding w2(2) P_def by (meson rtranclp.rtrancl_into_rtrancl)
    have "OnPeer cb \<notin> set (tv_on_peer (v_topics (view w2) ! t))" for cb
      unfolding w2(2) by (rule a_emit_peer_no_onpeer) (simp add: l1)
    then have "OnPeer cb \<notin> set (t_on_peer (topics w2 ! t))" for cb
      using l1 w2(4) by simp
    then show ?thesis using w2 r h by (simp add: P_def)
  qed
  have p0: "P w" using assms False by (simp add: P_def)
  obtain w1 where w1: "for_each (\<lambda>(h, p). emit_peer t
                \<lparr>p_port = p, p_host = h, p_local = True, p_referrer = None\<rparr>) (d_localPeers d) w = Inr w1" "P w1"
    using for_each_keeps [where P = P, OF _ p0, of "d_localPeers d" "\<lambda>(h, p). emit_peer t
                \<lparr>p_port = p, p_host = h, p_local = True, p_referrer = None\<rparr>"] step
    by (auto split: prod.splits)
  obtain w2 where w2: "for_each (\<lambda>(h, p). emit_peer t
                \<lparr>p_port = p, p_host = h, p_local = False, p_referrer = Some (d_node d)\<rparr>) (d_peers d) w1 = Inr w2" "P w2"
    using for_each_keeps [where P = P, OF _ w1(2), of "d_peers d" "\<lambda>(h, p). emit_peer t
                \<lparr>p_port = p, p_host = h, p_local = False, p_referrer = Some (d_node d)\<rparr>"] step
    by (auto split: prod.splits)
  show ?thesis using False w1(1) w2 by (simp add: ondhtdata_def P_def)
qed

lemma onmdnsresponse_sim:
  assumes "sane w"
  shows "\<exists>w'. onmdnsresponse res address w = Inr w' \<and> sane w' \<and> (a_trans C)\<^sup>*\<^sup>* (view w) (view w')"
proof -
  define P where "P = (\<lambda>w'. sane w' \<and> (a_trans C)\<^sup>*\<^sup>* (view w) (view w'))"
  have step: "\<exists>w'. emit_peer t p w1 = Inr w' \<and> P w'"
    if h: "P w1" "map_get name w1 \<noteq> None" "t \<in> set (the (map_get name w1))" for p w1 t name
  proof -
    have s1: "sane w1" using h by (simp add: P_def)
    then have ok: "index_ok (view w1)" by (simp add: sane_def)
    obtain s where s: "map_of (v_domains (view w1)) name = Some s" "t \<in> set s"
      using h(2,3) by (auto simp: map_get_def)
    have l1: "t < length (topics w1)" using index_okD(4) [OF ok s] by simp
    have al: "\<not> tv_destroyed (v_topics (view w1) ! t)" using index_okD(5) [OF ok s] .
    obtain w2 where w2: "emit_peer t p w1 = Inr w2" "view w2 = a_emit_peer t p (view w1)" "sane w2"
      using emit_peer_sim [OF s1 l1] by blast
    have "a_trans C (view w1) (a_emit_peer t p (view w1))"
      by (rule a_trans.peer) (use al l1 in simp_all)
    then have "(a_trans C)\<^sup>*\<^sup>* (view w) (view w2)"
      using h(1) unfolding w2(2) P_def by (meson rtranclp.rtrancl_into_rtrancl)
    then show ?thesis using w2 by (simp add: P_def)
  qed
  have one: "\<exists>w'. (case a of
          SRV name target prt \<Rightarrow>
            (case map_get name w1 of
               None \<Rightarrow> Inr w1
             | Some s \<Rightarrow>
                 let host = (if target = ''0.0.0.0'' then address else target)
                 in for_topics name (\<lambda>t. emit_peer t
                      \<lparr>p_port = prt, p_host = host, p_local = True, p_referrer = None\<rparr>) s w1)
        | _ \<Rightarrow> Inr w1) = Inr w' \<and> P w'" if "P w1" for a w1
  proof (cases a)
    case (SRV name target prt)
    show ?thesis
    proof (cases "map_get name w1")
      case None
      then show ?thesis using that SRV by simp
    next
      case (Some s)
      have "\<exists>w'. for_topics name (\<lambda>t. emit_peer t
                      \<lparr>p_port = prt, p_host = (if target = ''0.0.0.0'' then address else target),
                        p_local = True, p_referrer = None\<rparr>) s w1 = Inr w' \<and> P w'"
        by (rule for_topics_keeps [where P = P]) (use step that in auto)
      then show ?thesis using SRV Some by (simp add: Let_def)
    qed
  qed (use that in simp_all)
  have "\<exists>w'. onmdnsresponse res address w = Inr w' \<and> P w'"
    unfolding onmdnsresponse_def
    by (rule for_each_keeps [where P = P]) (use one assms in \<open>auto simp: P_def\<close>)
  then show ?thesis by (simp add: P_def)
qed

lemma a_mark_frame [simp]:
  "v_domains (a_mark t v) = v_domains v" "length (v_topics (a_mark t v)) = length (v_topics v)"
  "v_trace (a_mark t v) = v_trace v" "v_ticks (a_mark t v) = v_ticks v"
  "v_unannouncing (a_mark t v) = v_unannouncing v" "v_missing (a_mark t v) = v_missing v"
  "v_destroyed (a_mark t v) = v_destroyed v"
  by (simp_all add: a_mark_def)

lemma index_ok_mark [simp]: "index_ok (a_mark t v) = index_ok v"
  unfolding a_mark_def by (rule index_ok_listeners) simp_all

lemma destroy_topic_sim:
  assumes "sane w" "t < length (topics w)"
  shows "\<exists>w'. destroy_topic t w = Inr w' \<and> view w' = a_destroy_one t (view w) \<and> sane w'
           \<and> length (topics w') = length (topics w)"
proof -
  define w0 where "w0 = w\<lparr>missing := missing w + 1\<rparr>"
  have v0: "view w0 = (view w)\<lparr>v_missing := v_missing (view w) + 1\<rparr>" by (simp add: w0_def view_def)
  have s0: "sane w0" using assms(1) by (simp add: sane_def v0) (simp add: w0_def)
  have l0: "t < length (topics w0)" using assms(2) by (simp add: w0_def)
  obtain w1 where w1: "topic_destroy t w0 = Inr w1" "view w1 = a_destroy t (view w0)" "sane w1"
    "length (topics w1) = length (topics w0)"
    using topic_destroy_sim [OF s0 l0] by blast
  define w2 where "w2 = upd_topic t (\<lambda>x. x\<lparr>t_on_close := t_on_close x @ [Done]\<rparr>) w1"
  have l1: "t < length (topics w1)" using w1(4) l0 by simp
  have v2: "view w2 = a_mark t (view w1)"
    using l1 by (simp add: w2_def view_def upd_topic_def a_mark_def map_update tview_of_def)
  have "sane w2" using w1(3) by (simp add: sane_def v2) (simp add: w2_def)
  moreover have "destroy_topic t w = Inr w2"
    using w1(1) by (simp add: destroy_topic_def w0_def w2_def)
  moreover have "length (topics w2) = length (topics w)"
    using w1(4) by (simp add: w2_def upd_topic_def w0_def)
  ultimately show ?thesis by (simp add: v2 w1(2) v0 a_destroy_one_def)
qed

lemma a_destroy_one_domains:
  assumes "t < length (v_topics v)" "\<not> tv_destroyed (v_topics v ! t)"
  shows "v_domains (a_destroy_one t v) = a_remove t (tv_domain (v_topics v ! t)) (v_domains v)"
  using assms by (simp add: a_destroy_one_def a_destroy_def Let_def)

text \<open>The inner loop of \<open>Discovery.destroy\<close> empties the Set it runs over.\<close>

lemma destroy_set_loop:
  assumes "sane w" "map_get d w = Some ts" "ts \<noteq> []"
  shows "\<exists>w'. for_topics d destroy_topic ts w = Inr w' \<and> view w' = fold a_destroy_one ts (view w)
           \<and> sane w' \<and> domains w' = filter (\<lambda>(k, v). k \<noteq> d) (domains w)"
  using assms
proof (induction ts arbitrary: w)
  case Nil
  then show ?case by simp
next
  case (Cons t ts)
  have ok: "index_ok (view w)" using Cons.prems(1) by (simp add: sane_def)
  have m: "map_of (v_domains (view w)) d = Some (t # ts)" using Cons.prems(2) by (simp add: map_get_def)
  have l: "t < length (topics w)" using index_okD(4) [OF ok m, of t] by simp
  have al: "\<not> tv_destroyed (v_topics (view w) ! t)" using index_okD(5) [OF ok m, of t] by simp
  have dt: "tv_domain (v_topics (view w) ! t) = d" using index_okD(6) [OF ok m, of t] by simp
  have di: "distinct (t # ts)" using index_okD(3) [OF ok m] .
  obtain w1 where w1: "destroy_topic t w = Inr w1" "view w1 = a_destroy_one t (view w)" "sane w1"
    using destroy_topic_sim [OF Cons.prems(1) l] by blast
  have "v_domains (view w1) = a_remove t d (v_domains (view w))"
    unfolding w1(2) using a_destroy_one_domains [of t "view w"] l al dt by simp
  then have d1: "domains w1 = a_remove t d (domains w)" by simp
  have r: "removeAll t (t # ts) = ts" using di by simp
  have m': "map_of (domains w) d = Some (t # ts)" using Cons.prems(2) by (simp add: map_get_def)
  have ar: "a_remove t d (domains w) =
      (if ts = [] then filter (\<lambda>(k, v). k \<noteq> d) (domains w)
       else map (\<lambda>(k, v). if k = d then (k, ts) else (k, v)) (domains w))"
    unfolding a_remove_def m' option.case r ..
  have u: "for_topics d destroy_topic (t # ts) w = for_topics d destroy_topic ts w1"
    using Cons.prems(2) w1(1) by simp
  show ?case
  proof (cases "ts = []")
    case True
    have "domains w1 = filter (\<lambda>(k, v). k \<noteq> d) (domains w)"
      unfolding d1 ar using True by simp
    then show ?thesis using u w1 True by simp
  next
    case False
    have d1': "domains w1 = map (\<lambda>(k, v). if k = d then (k, ts) else (k, v)) (domains w)"
      unfolding d1 ar using False by simp
    have g: "map_get d w1 = Some ts"
      using m by (simp add: map_get_def d1' map_of_replace)
    obtain w' where w': "for_topics d destroy_topic ts w1 = Inr w'"
      "view w' = fold a_destroy_one ts (view w1)" "sane w'"
      "domains w' = filter (\<lambda>(k, v). k \<noteq> d) (domains w1)"
      using Cons.IH [OF w1(3) g False] by blast
    have "domains w' = filter (\<lambda>(k, v). k \<noteq> d) (domains w)"
      by (simp add: w'(4) d1' filter_map_replace)
    then show ?thesis using u w' w1(2) by simp
  qed
qed

text \<open>The outer loop: the keys still to visit are the keys of the Map.\<close>

lemma destroy_map_loop:
  assumes "sane w" "map fst (domains w) = ks"
  shows "\<exists>w'. for_each destroy_set ks w = Inr w'
           \<and> view w' = fold a_destroy_one (concat (map snd (domains w))) (view w) \<and> sane w'"
  using assms
proof (induction ks arbitrary: w)
  case Nil
  then show ?case by simp
next
  case (Cons d ks)
  obtain s rest where dm: "domains w = (d, s) # rest" "map fst rest = ks"
    using Cons.prems(2) by (cases "domains w") auto
  have ok: "index_ok (view w)" using Cons.prems(1) by (simp add: sane_def)
  have g: "map_get d w = Some s" by (simp add: map_get_def dm)
  then have m: "map_of (v_domains (view w)) d = Some s" by (simp add: map_get_def)
  have ne: "s \<noteq> []" using index_okD(2) [OF ok m] .
  obtain w1 where w1: "for_topics d destroy_topic s w = Inr w1"
    "view w1 = fold a_destroy_one s (view w)" "sane w1"
    "domains w1 = filter (\<lambda>(k, v). k \<noteq> d) (domains w)"
    using destroy_set_loop [OF Cons.prems(1) g ne] by blast
  have "d \<notin> set (map fst rest)" using index_okD(1) [OF ok] by (simp add: dm)
  then have "filter (\<lambda>(k, v). k \<noteq> d) rest = rest"
    by (induction rest) auto
  then have d1: "domains w1 = rest" by (simp add: w1(4) dm)
  obtain w' where w': "for_each destroy_set ks w1 = Inr w'"
    "view w' = fold a_destroy_one (concat (map snd (domains w1))) (view w1)" "sane w'"
    using Cons.IH [OF w1(3)] d1 dm(2) by blast
  have "for_each destroy_set (d # ks) w = Inr w'"
    using w1(1) w'(1) g by (simp add: destroy_set_def)
  then show ?case using w'(2,3) by (simp add: d1 dm w1(2))
qed

lemma view_nextTick: "view (nextTick f w) = (view w)\<lparr>v_ticks := v_ticks (view w) @ [f]\<rparr>"
  by (simp add: view_def nextTick_def)

lemma discovery_destroy_sim:
  assumes "sane w" "\<not> destroyed w"
  shows "\<exists>w'. discovery_destroy w = Inr w' \<and> view w' = a_destroy_all (view w) \<and> sane w'"
proof -
  define w1 where "w1 = say MdnsDestroy (w\<lparr>destroyed := True, missing := 1\<rparr>)"
  have v1: "view w1 = (view w)\<lparr>v_destroyed := True, v_missing := 1\<rparr>"
    by (simp add: w1_def) (simp add: view_def)
  have s1: "sane w1" using assms(1) by (simp add: sane_def v1) (simp add: w1_def)
  have d1: "domains w1 = domains w" by (simp add: w1_def say_def)
  obtain w2 where w2: "for_each destroy_set (map fst (domains w1)) w1 = Inr w2"
    "view w2 = fold a_destroy_one (concat (map snd (domains w1))) (view w1)" "sane w2"
    using destroy_map_loop [OF s1 refl] by blast
  have r: "discovery_destroy w = Inr (nextTick SessionDone w2)"
    using assms(2) w2(1) by (simp add: discovery_destroy_def Let_def w1_def process_nextTick_def)
  have v: "view (nextTick SessionDone w2) = a_destroy_all (view w)"
    by (simp add: a_destroy_all_def Let_def w2(2) [unfolded d1 v1, symmetric] view_nextTick)
  have "sane (nextTick SessionDone w2)"
    using w2(3) unfolding sane_def
    by (auto intro!: handles_ok_tick simp: view_nextTick)
  then show ?thesis using r v by simp
qed

lemma fold_close_frame:
  "\<exists>m tr. fold run_close_listener ls w = w\<lparr>missing := m, trace := tr\<rparr>"
proof (induction ls arbitrary: w)
  case Nil
  show ?case by (rule exI [of _ "missing w"], rule exI [of _ "trace w"]) simp
next
  case (Cons l ls)
  have "\<exists>m tr. run_close_listener l w = w\<lparr>missing := m, trace := tr\<rparr>"
  proof (cases l)
    case Done
    show ?thesis
    proof (cases "missing w - 1 \<noteq> 0")
      case True
      show ?thesis
        by (rule exI [of _ "missing w - 1"], rule exI [of _ "trace w"])
           (use True in \<open>simp add: Done session_done_def Let_def\<close>)
    next
      case False
      show ?thesis
        by (rule exI [of _ "missing w - 1"], rule exI [of _ "trace w @ [DhtDestroy, SessionClose]"])
           (use False in \<open>simp add: Done session_done_def Let_def say_def\<close>)
    qed
  next
    case (OnClose cb)
    show ?thesis
      by (rule exI [of _ "missing w"], rule exI [of _ "trace w @ [Callback cb (Failed ''Lookup failed'')]"])
         (simp add: OnClose say_def)
  qed
  then obtain m tr where 1: "run_close_listener l w = w\<lparr>missing := m, trace := tr\<rparr>"
    by blast
  obtain m' tr' where "fold run_close_listener ls (w\<lparr>missing := m, trace := tr\<rparr>)
      = w\<lparr>missing := m, trace := tr\<rparr>\<lparr>missing := m', trace := tr'\<rparr>"
    using Cons.IH by blast
  then have "fold run_close_listener (l # ls) w = w\<lparr>missing := m', trace := tr'\<rparr>"
    using 1 by simp
  then show ?case by blast
qed

lemma emit_close_frame: "\<exists>m tr. emit_close t w = w\<lparr>missing := m, trace := tr\<rparr>"
proof -
  obtain m tr where "fold run_close_listener (t_on_close (topics w ! t)) (say (Emit t Close) w)
      = (say (Emit t Close) w)\<lparr>missing := m, trace := tr\<rparr>"
    using fold_close_frame by blast
  then show ?thesis by (auto simp: emit_close_def say_def)
qed

lemma session_done_frame: "\<exists>m tr. session_done w = w\<lparr>missing := m, trace := tr\<rparr>"
  using fold_close_frame [of "[Done]" w] by simp

lemma sane_frame:
  assumes "sane w" "w' = w\<lparr>missing := m, trace := tr\<rparr>"
  shows "sane w'"
proof -
  have "view w' = (view w)\<lparr>v_missing := m, v_trace := filter loud tr\<rparr>"
    by (simp add: assms(2) view_def)
  then show ?thesis using assms by (simp add: sane_def)
qed

lemma sane_quiet:
  assumes "sane w" "view w' = view w" "handles_ok w'"
  shows "sane w'"
  using assms by (simp add: sane_def)

lemma sane_pop:
  assumes "sane w" "ticks w = f # fs"
  shows "sane (w\<lparr>ticks := fs\<rparr>)"
proof -
  have "view (w\<lparr>ticks := fs\<rparr>) = (view w)\<lparr>v_ticks := fs\<rparr>" by (simp add: view_def)
  then show ?thesis using assms handles_ok_pop [of w f fs] by (simp add: sane_def)
qed

lemma create_sim:
  assumes "sane w" "\<not> destroyed w" "topic_of key opts rnd w = (t, w')"
  shows "sane w'" "view w' = a_create (domain_of w key)
      (case opts of None \<Rightarrow> False | Some o1 \<Rightarrow> o_announce o1 \<noteq> None) [] [] (view w)"
    "t = length (topics w)" "length (topics w') = Suc (length (topics w))"
proof -
  note v = topic_of_view [OF assms(3)]
  show v': "view w' = a_create (domain_of w key)
      (case opts of None \<Rightarrow> False | Some o1 \<Rightarrow> o_announce o1 \<noteq> None) [] [] (view w)"
    by (simp add: v(3) a_create_def)
  have "index_ok (view w')"
    unfolding v' a_create_def
    using index_ok_create [of "view w" "\<lparr>tv_destroyed = False, tv_domain = domain_of w key,
        tv_announcing = (case opts of None \<Rightarrow> False | Some o1 \<Rightarrow> o_announce o1 \<noteq> None),
        tv_on_peer = [], tv_on_close = []\<rparr>"] assms(1)
    by (simp add: sane_def)
  then show "sane w'" using topic_of_handles [OF assms(3)] assms(1) by (simp add: sane_def)
  show "t = length (topics w)" "length (topics w') = Suc (length (topics w))" using v by simp_all
qed

section \<open>Every input is a sequence of observable steps\<close>

lemma simI:
  "step i w = Inr w' \<Longrightarrow> sane w' \<Longrightarrow> (a_trans C)\<^sup>*\<^sup>* (view w) (view w') \<Longrightarrow> sim C i w"
  by (auto simp: sim_def)

lemma sim_stutter:
  "step i w = Inr w' \<Longrightarrow> sane w \<Longrightarrow> view w' = view w \<Longrightarrow> handles_ok w' \<Longrightarrow> sim C i w"
proof (rule simI [of _ _ w'])
  assume a: "step i w = Inr w'" "sane w" "view w' = view w" "handles_ok w'"
  show "step i w = Inr w'" by (rule a(1))
  show "sane w'" using a(2,4) unfolding sane_def a(3) by simp
  show "(a_trans C)\<^sup>*\<^sup>* (view w) (view w')" unfolding a(3) by simp
qed

lemma sim_lookup:
  assumes "sane w"
  shows "sim C (Lookup key rnd) w"
proof (cases "destroyed w")
  case True
  then show ?thesis by (simp add: sim_def lookup_topic_def)
next
  case False
  obtain t w' where tw: "topic_of key None rnd w = (t, w')" by (cases "topic_of key None rnd w")
  note c = create_sim [OF assms False tw]
  have "a_trans C (view w) (view w')" unfolding c(2) by (rule a_trans.create) (simp add: False)
  then show ?thesis using False tw c(1) by (intro simI [of _ _ w']) (auto simp: lookup_topic_def)
qed

lemma sim_announce:
  assumes "sane w"
  shows "sim C (Announce key opts rnd) w"
proof (cases "destroyed w")
  case True
  then show ?thesis by (simp add: sim_def announce_topic_def)
next
  case False
  define o1 where "o1 = \<lparr>o_localPort = Some (or_else (localPort opts) (or_else (port opts) 0)),
               o_lookup = lookup opts,
               o_announce = Some \<lparr>a_port = or_else (port opts) 0,
                                  a_localAddress = localAddress opts\<rparr>\<rparr>"
  obtain t w' where tw: "topic_of key (Some o1) rnd w = (t, w')" by (cases "topic_of key (Some o1) rnd w")
  note c = create_sim [OF assms False tw]
  have "a_trans C (view w) (view w')" unfolding c(2) by (rule a_trans.create) (simp add: False)
  then show ?thesis using False tw c(1)
    by (intro simI [of _ _ w']) (auto simp: announce_topic_def o1_def)
qed

lemma lookupOne_view:
  assumes "sane w" "\<not> destroyed w"
  shows "\<exists>w'. step (LookupOne key cb rnd) w = Inr w' \<and> sane w'
    \<and> view w' = a_create (domain_of w key) False [OnPeer cb] [OnClose cb] (view w)"
proof -
  obtain t w1 where tw: "topic_of key None rnd w = (t, w1)" by (cases "topic_of key None rnd w")
  note c = create_sim [OF assms(1,2) tw]
  define w' where "w' = upd_topic t (\<lambda>x. x\<lparr>t_on_peer := t_on_peer x @ [OnPeer cb]\<rparr>)
                (upd_topic t (\<lambda>x. x\<lparr>t_on_close := t_on_close x @ [OnClose cb]\<rparr>) w1)"
  have r: "step (LookupOne key cb rnd) w = Inr w'"
    using assms(2) tw by (simp add: lookupOne_def lookup_topic_def w'_def)
  have lt: "t < length (topics w1)" using c(3,4) by simp
  have f: "t_on_peer (topics w1 ! t) = []" "t_on_close (topics w1 ! t) = []"
    "\<not> t_destroyed (topics w1 ! t)" "t_domain (topics w1 ! t) = domain_of w key"
    "t_announce (topics w1 ! t) = None"
  proof -
    have "length (v_topics (view w)) = length (topics w)" by (simp add: view_def)
    then have "tview_of (topics w1 ! t) = \<lparr>tv_destroyed = False, tv_domain = domain_of w key,
           tv_announcing = False, tv_on_peer = [], tv_on_close = []\<rparr>"
      using arg_cong [OF c(2), of "\<lambda>v. v_topics v ! t"] lt c(3)
      by (simp add: a_create_def view_def nth_append)
    then show "t_on_peer (topics w1 ! t) = []" "t_on_close (topics w1 ! t) = []"
      "\<not> t_destroyed (topics w1 ! t)" "t_domain (topics w1 ! t) = domain_of w key"
      "t_announce (topics w1 ! t) = None"
      by (simp_all add: tview_of_def)
  qed
  have v': "view w' = a_create (domain_of w key) False [OnPeer cb] [OnClose cb] (view w)"
  proof -
    have "view w' = (view w1)\<lparr>v_topics := (v_topics (view w1))[t := \<lparr>tv_destroyed = False,
        tv_domain = domain_of w key, tv_announcing = False, tv_on_peer = [OnPeer cb],
        tv_on_close = [OnClose cb]\<rparr>]\<rparr>"
      using lt f by (simp add: w'_def view_def tview_of_def upd_topic_def map_update)
    then show ?thesis unfolding c(2) using c(3) by (simp add: a_create_def list_update_append)
  qed
  have "index_ok (view w')"
    unfolding v' a_create_def
    using index_ok_create [of "view w" "\<lparr>tv_destroyed = False, tv_domain = domain_of w key,
        tv_announcing = False, tv_on_peer = [OnPeer cb], tv_on_close = [OnClose cb]\<rparr>"] assms(1)
    by (simp add: sane_def)
  moreover have "handles_ok w'" using c(1) by (simp add: w'_def sane_def)
  ultimately show ?thesis using r v' by (auto simp: sane_def)
qed

lemma sim_lookupOne:
  assumes "sane w" "cb \<in> C"
  shows "sim C (LookupOne key cb rnd) w"
proof (cases "destroyed w")
  case True
  then show ?thesis by (simp add: sim_def lookupOne_def lookup_topic_def)
next
  case False
  obtain w' where w': "step (LookupOne key cb rnd) w = Inr w'" "sane w'"
    "view w' = a_create (domain_of w key) False [OnPeer cb] [OnClose cb] (view w)"
    using lookupOne_view [OF assms(1) False] by blast
  have "a_trans C (view w) (view w')"
    unfolding w'(3) by (rule a_trans.create_one) (simp_all add: False assms(2))
  then show ?thesis using w'(1,2) by (intro simI [of _ _ w']) auto
qed

lemma sim_noop: "sane w \<Longrightarrow> step i w = Inr w \<Longrightarrow> sim C i w"
  by (rule sim_stutter [of _ _ w]) (simp_all add: sane_def)

lemma sim_topic_update:
  assumes "sane w"
  shows "sim C (TopicUpdate t) w"
proof (cases "t < length (topics w)")
  case True
  then show ?thesis using assms
    by (intro sim_stutter [of _ _ "topic_update t w"]) (simp_all add: sane_def handles_ok_topic_update)
next
  case False
  then show ?thesis using assms by (intro sim_noop) simp_all
qed

lemma sim_topic_destroy:
  assumes "sane w"
  shows "sim C (TopicDestroy t) w"
proof (cases "t < length (topics w)")
  case True
  obtain w' where w': "topic_destroy t w = Inr w'" "view w' = a_destroy t (view w)" "sane w'"
    using topic_destroy_sim [OF assms True] by blast
  have "a_trans C (view w) (view w')" unfolding w'(2) by (rule a_trans.destroy) (simp add: True)
  then show ?thesis using w' True by (intro simI [of _ _ w']) auto
next
  case False
  then show ?thesis using assms by (auto intro!: sim_stutter [of _ _ w] simp: sane_def)
qed

lemma sim_on_peer_destroy:
  assumes "sane w"
  shows "sim C (OnPeerDestroy t) w"
proof (cases "t < length (topics w)")
  case True
  define w' where "w' = upd_topic t (\<lambda>x. x\<lparr>t_on_peer := t_on_peer x @ [CallerDestroys]\<rparr>) w"
  have v': "view w' = a_listen t (view w)"
    using True by (simp add: w'_def view_upd_topic a_listen_def tview_of_def)
  have "index_ok (view w')" unfolding v' a_listen_def
    using assms by (subst index_ok_listeners) (simp_all add: sane_def)
  then have "sane w'" using assms by (simp add: sane_def w'_def)
  moreover have "a_trans C (view w) (view w')" unfolding v' by (rule a_trans.listen) (simp add: True)
  ultimately show ?thesis using True by (intro simI [of _ _ w']) (auto simp: w'_def)
next
  case False
  then show ?thesis using assms by (auto intro!: sim_stutter [of _ _ w] simp: sane_def)
qed

lemma sim_destroy:
  assumes "sane w"
  shows "sim C Destroy w"
proof (cases "destroyed w")
  case True
  then show ?thesis using assms
    by (auto intro!: sim_stutter [of _ _ w] simp: sane_def discovery_destroy_def)
next
  case False
  obtain w' where w': "discovery_destroy w = Inr w'" "view w' = a_destroy_all (view w)" "sane w'"
    using discovery_destroy_sim [OF assms False] by blast
  have "a_trans C (view w) (view w')" unfolding w'(2) by (rule a_trans.destroy_all) (simp add: False)
  then show ?thesis using w' by (intro simI [of _ _ w']) auto
qed

lemma run_tick_sim:
  assumes "sane w" "ticks w = f # fs"
  shows "sane (run_task f (w\<lparr>ticks := fs\<rparr>)) \<and> a_trans C (view w) (view (run_task f (w\<lparr>ticks := fs\<rparr>)))"
proof -
  define w1 where "w1 = w\<lparr>ticks := fs\<rparr>"
  have s1: "sane w1" unfolding w1_def using assms by (rule sane_pop)
  have v1: "view w1 = (view w)\<lparr>v_ticks := fs\<rparr>" by (simp add: w1_def view_def)
  have tt: "tick_task (length (topics w)) f"
    using handles_okD(3) [of w f] assms by (simp add: sane_def)
  show ?thesis
  proof (cases f)
    case (EmitClose t)
    then have lt: "t < length (topics w)" using tt by simp
    then have l1: "t < length (topics w1)" by (simp add: w1_def)
    obtain m tr where "emit_close t w1 = w1\<lparr>missing := m, trace := tr\<rparr>"
      using emit_close_frame by blast
    then have "sane (emit_close t w1)" using sane_frame [OF s1] by simp
    moreover have "a_trans C (view w) (view (emit_close t w1))"
      unfolding view_emit_close [OF l1] v1
      by (rule a_trans.close_tick) (simp_all add: assms(2) EmitClose lt)
    ultimately show ?thesis by (simp add: EmitClose w1_def)
  next
    case SessionDone
    obtain m tr where "session_done w1 = w1\<lparr>missing := m, trace := tr\<rparr>"
      using session_done_frame by blast
    then have "sane (session_done w1)" using sane_frame [OF s1] by simp
    moreover have "a_trans C (view w) (view (session_done w1))"
      unfolding view_session_done v1
      by (rule a_trans.done_tick) (simp add: assms(2) SessionDone)
    ultimately show ?thesis by (simp add: SessionDone w1_def)
  qed (use tt in simp_all)
qed

lemma sim_tick:
  assumes "sane w"
  shows "sim C Tick w"
proof (cases "ticks w")
  case Nil
  then show ?thesis using assms by (auto intro!: sim_stutter [of _ _ w] simp: sane_def)
next
  case (Cons f fs)
  from run_tick_sim [OF assms Cons, of C] show ?thesis
    using Cons by (intro simI [of _ _ "run_task f (w\<lparr>ticks := fs\<rparr>)"]) auto
qed

lemma sim_timeout:
  assumes "sane w"
  shows "sim C (Timeout h) w"
proof (cases "h < length (timers w) \<and> timers w ! h \<noteq> None")
  case False
  then show ?thesis using assms by (intro sim_noop) (auto split: option.splits)
next
  case True
  then obtain f e where fe: "timers w ! h = Some (f, e)" by auto
  define w1 where "w1 = w\<lparr>timers := (timers w)[h := None]\<rparr>"
  have h: "handles_ok w" using assms by (simp add: sane_def)
  have h1: "handles_ok w1" unfolding w1_def using h by (rule handles_ok_clear_one)
  have tt: "timer_task (length (topics w)) f" using handles_okD(2) [OF h _ fe] True by simp
  have r: "step (Timeout h) w = Inr (run_task f w1)" using True fe by (simp add: w1_def)
  have l1: "length (topics w1) = length (topics w)" by (simp add: w1_def)
  have "view (run_task f w1) = view w \<and> handles_ok (run_task f w1)"
  proof (cases f)
    case (DhtLoop t)
    then show ?thesis using tt h1 l1 by (simp add: handles_ok_dht_loop) (simp add: w1_def)
  next
    case (MdnsLoop t)
    then show ?thesis using tt h1 l1 by (simp add: handles_ok_mdns_loop) (simp add: w1_def)
  qed (use tt in simp_all)
  then show ?thesis using r assms by (intro sim_stutter [of _ _ "run_task f w1"]) auto
qed

lemma sim_stream_data:
  assumes "sane w"
  shows "sim C (StreamData h d) w"
proof (cases "h < length (streams w)")
  case True
  then have "fst (streams w ! h) < length (topics w)"
    using handles_okD(1) [of w h] assms by (simp add: sane_def)
  from ondhtdata_sim [OF assms this, of d C] show ?thesis using True by (auto simp: sim_def)
next
  case False
  then show ?thesis using assms by (auto intro!: sim_stutter [of _ _ w] simp: sane_def)
qed

lemma sim_stream_error:
  assumes "sane w"
  shows "sim C (StreamError h e) w"
proof (cases "h < length (streams w)")
  case True
  then show ?thesis using assms
    by (intro sim_stutter [of _ _ "dht_done h (Some e) w"]) (simp_all add: sane_def handles_ok_dht_done)
next
  case False
  then show ?thesis using assms by (intro sim_noop) simp_all
qed

lemma sim_stream_end:
  assumes "sane w"
  shows "sim C (StreamEnd h) w"
proof (cases "h < length (streams w)")
  case True
  then show ?thesis using assms
    by (intro sim_stutter [of _ _ "dht_done h None w"]) (simp_all add: sane_def handles_ok_dht_done)
next
  case False
  then show ?thesis using assms by (intro sim_noop) simp_all
qed

lemma sim_unannounced:
  assumes "sane w"
  shows "sim C (Unannounced t) w"
proof (cases "t \<in> set (unannouncing w)")
  case False
  then show ?thesis using assms by (auto intro!: sim_stutter [of _ _ w] simp: sane_def)
next
  case True
  have h: "handles_ok w" using assms by (simp add: sane_def)
  have lt: "t < length (topics w)" using handles_okD(4) [OF h True] .
  define w1 where "w1 = w\<lparr>unannouncing := remove1 t (unannouncing w)\<rparr>"
  have v1: "view w1 = (view w)\<lparr>v_unannouncing := remove1 t (v_unannouncing (view w))\<rparr>"
    by (simp add: w1_def view_def)
  have "handles_ok w1" using h unfolding handles_ok_def w1_def by (auto dest: notin_set_remove1)
  then have s1: "sane w1" using assms by (simp add: sane_def v1)
  have l1: "t < length (topics w1)" using lt by (simp add: w1_def)
  obtain m tr where "emit_close t w1 = w1\<lparr>missing := m, trace := tr\<rparr>"
    using emit_close_frame by blast
  then have "sane (emit_close t w1)" using sane_frame [OF s1] by simp
  moreover have "a_trans C (view w) (view (emit_close t w1))"
    unfolding view_emit_close [OF l1] v1
    by (rule a_trans.close_unannounced) (simp_all add: True lt)
  ultimately show ?thesis using True
    by (intro simI [of _ _ "emit_close t w1"]) (auto simp: w1_def)
qed

lemma sim_query: "sane w \<Longrightarrow> sim C (QueryIn q) w"
  by (auto intro!: sim_stutter [of _ _ "onmdnsquery q w"] simp: sane_def onmdnsquery_def)

lemma sim_response: "sane w \<Longrightarrow> sim C (ResponseIn r a) w"
  using onmdnsresponse_sim [of w r a C] by (auto simp: sim_def)

lemma step_sim:
  assumes "sane w" "cb_of i \<subseteq> C"
  shows "sim C i w"
  using assms
  by (cases i)
     (simp_all add: sim_lookup sim_announce sim_lookupOne sim_topic_update sim_topic_destroy
        sim_on_peer_destroy sim_destroy sim_tick sim_timeout sim_stream_data sim_stream_error
        sim_stream_end sim_unannounced sim_query sim_response del: step.simps)

section \<open>The Domain Index\<close>

lemma sane_new_Discovery: "sane (new_Discovery opts nodes)"
  by (simp add: sane_def handles_ok_def index_ok_def view_def new_Discovery_def)

lemma run_sim:
  assumes "sane w" "\<And>i. i \<in> set is \<Longrightarrow> cb_of i \<subseteq> C"
  shows "\<exists>w'. run is w = Inr w' \<and> sane w' \<and> (a_trans C)\<^sup>*\<^sup>* (view w) (view w')"
  using assms
proof (induction "is" arbitrary: w)
  case Nil
  then show ?case by simp
next
  case (Cons i "is")
  have c: "cb_of i \<subseteq> C" using Cons.prems(2) by simp
  have r: "\<And>j. j \<in> set is \<Longrightarrow> cb_of j \<subseteq> C" using Cons.prems(2) by simp
  from step_sim [OF Cons.prems(1) c]
  consider "step i w = Inl InstanceDestroyed"
    | w1 where "step i w = Inr w1" "sane w1" "(a_trans C)\<^sup>*\<^sup>* (view w) (view w1)"
    by (auto simp: sim_def)
  then show ?case
  proof cases
    case 1
    then show ?thesis using Cons.IH [OF Cons.prems(1) r] by simp
  next
    case 2
    obtain w' where "run is w1 = Inr w'" "sane w'" "(a_trans C)\<^sup>*\<^sup>* (view w1) (view w')"
      using Cons.IH [OF 2(2) r] by blast
    then show ?thesis using 2 by auto
  qed
qed

lemma run_sane:
  assumes "sane w"
  shows "\<exists>w'. run is w = Inr w' \<and> sane w'"
  using run_sim [OF assms, of "is" UNIV] by auto

lemma index_live:
  assumes "sane w" "map_get d w = Some s"
  shows "s \<noteq> []" "distinct s"
    "set s = {t. t < length (topics w) \<and> \<not> t_destroyed (topics w ! t) \<and> t_domain (topics w ! t) = d}"
proof -
  have ok: "index_ok (view w)" using assms(1) by (simp add: sane_def)
  have m: "map_of (v_domains (view w)) d = Some s" using assms(2) by (simp add: map_get_def)
  show "s \<noteq> []" "distinct s" using index_okD(2,3) [OF ok m] .
  show "set s = {t. t < length (topics w) \<and> \<not> t_destroyed (topics w ! t) \<and> t_domain (topics w ! t) = d}"
  proof (intro set_eqI iffI)
    fix t assume "t \<in> set s"
    from index_okD(4,5,6) [OF ok m this]
    show "t \<in> {t. t < length (topics w) \<and> \<not> t_destroyed (topics w ! t) \<and> t_domain (topics w ! t) = d}"
      by simp
  next
    fix t assume "t \<in> {t. t < length (topics w) \<and> \<not> t_destroyed (topics w ! t) \<and> t_domain (topics w ! t) = d}"
    then have t: "t < length (topics w)" "\<not> t_destroyed (topics w ! t)" "t_domain (topics w ! t) = d"
      by simp_all
    from index_okD(7) [OF ok, of t] t m show "t \<in> set s" by simp
  qed
qed

lemma index_dead:
  assumes "sane w" "map_get d w = None" "t < length (topics w)" "t_domain (topics w ! t) = d"
  shows "t_destroyed (topics w ! t)"
proof (rule ccontr)
  assume "\<not> t_destroyed (topics w ! t)"
  moreover have ok: "index_ok (view w)" using assms(1) by (simp add: sane_def)
  ultimately show False using index_okD(7) [OF ok, of t] assms(2-4) by (simp add: map_get_def)
qed

text \<open>
  Claim C9. After every sequence of inputs to a new session, the Domain Index maps no domain
  to an empty Set: the Set of a domain in the index is not empty, holds no Topic twice, and
  is the set of the Topics of that domain that have not been destroyed; a domain with no
  entry has no such Topic. (And no run ends in an exception.)
\<close>

theorem domain_index_never_empty:
  "\<exists>w. run is (new_Discovery opts nodes) = Inr w
     \<and> distinct (map fst (domains w))
     \<and> (\<forall>d s. map_get d w = Some s \<longrightarrow>
          s \<noteq> [] \<and> distinct s
          \<and> set s = {t. t < length (topics w) \<and> \<not> t_destroyed (topics w ! t)
                        \<and> t_domain (topics w ! t) = d})
     \<and> (\<forall>t < length (topics w). map_get (t_domain (topics w ! t)) w = None
          \<longrightarrow> t_destroyed (topics w ! t))"
proof -
  obtain w where w: "run is (new_Discovery opts nodes) = Inr w" "sane w"
    using run_sane [OF sane_new_Discovery] by blast
  have "distinct (map fst (domains w))"
    using w(2) index_okD(1) [of "view w"] by (simp add: sane_def)
  then show ?thesis using w index_live [OF w(2)] index_dead [OF w(2)] by blast
qed

lemma run_two_topics:
  "case run [Announce key3 announce4000 [1], Lookup key3 [2], TopicDestroy 0] world0 of
     Inl e \<Rightarrow> False
   | Inr w \<Rightarrow>
       map_get ''010203.hyperswarm.local'' w = Some [1]
       \<and> t_destroyed (topics w ! 0) \<and> \<not> t_destroyed (topics w ! 1)"
  by (simp add: world0_def key3_def announce4000_def announce_topic_def lookup_topic_def
        topic_of_def new_Topic_def topic_update_def startDht_def startMdns_def dht_loop_def
        mdns_loop_def notify_def topic_destroy_def stopDht_def or_else_def upd_topic_def
        domain_of_def id_prefix_def op_defs value_defs)

theorem domain_index_never_empty_witness:
  "\<exists>w. run [Announce key3 announce4000 [1], Lookup key3 [2], TopicDestroy 0] world0 = Inr w
     \<and> map_get ''010203.hyperswarm.local'' w = Some [1]
     \<and> set [1] = {t. t < length (topics w) \<and> \<not> t_destroyed (topics w ! t)
                        \<and> t_domain (topics w ! t) = ''010203.hyperswarm.local''}
     \<and> t_destroyed (topics w ! 0) \<and> \<not> t_destroyed (topics w ! 1)"
proof -
  obtain w where w: "run [Announce key3 announce4000 [1], Lookup key3 [2], TopicDestroy 0] world0 = Inr w"
    and s: "\<And>d s. map_get d w = Some s \<Longrightarrow>
          set s = {t. t < length (topics w) \<and> \<not> t_destroyed (topics w ! t)
                        \<and> t_domain (topics w ! t) = d}"
    using domain_index_never_empty [of "[Announce key3 announce4000 [1], Lookup key3 [2], TopicDestroy 0]"
      None "[''n1'', ''n2'']"]
    unfolding world0_def by blast
  have c: "map_get ''010203.hyperswarm.local'' w = Some [1]"
    "t_destroyed (topics w ! 0)" "\<not> t_destroyed (topics w ! 1)"
    using run_two_topics unfolding w by simp_all
  show ?thesis using w c s [OF c(1)] by blast
qed

section \<open>Events of a destroyed Topic\<close>

text \<open>
  Claim C8. A caller's \<open>'peer'\<close> listener destroys the Topic; the DHT stream then delivers one
  \<open>data\<close> event with two peers. \<open>_ondhtdata\<close> looks at \<open>destroyed\<close> once, before its loops, so
  the second \<open>'peer'\<close> event is emitted after \<open>destroy()\<close> has returned: after the stream has
  been destroyed, and before the Topic's \<open>'close'\<close>.
\<close>

theorem peer_emitted_after_destroy:
  "case run [Lookup key3 [1], OnPeerDestroy 0, StreamData 0 two_peers, Tick] world0 of
     Inl e \<Rightarrow> False
   | Inr w \<Rightarrow>
       trace w =
         [DhtLookup key3 0,
          MdnsQuery \<lparr>questions = [\<lparr>q_type = ''SRV'', q_name = ''010203.hyperswarm.local''\<rparr>],
                     answers = [TXT ''010203.hyperswarm.local'' [id_prefix @ [1]]]\<rparr>,
          Emit 0 (Peer \<lparr>p_port = 4000, p_host = ''10.0.0.7'', p_local = False,
                         p_referrer = Some ''n1''\<rparr>),
          StreamDestroy 0,
          Emit 0 (Peer \<lparr>p_port = 4001, p_host = ''10.0.0.8'', p_local = False,
                         p_referrer = Some ''n1''\<rparr>),
          Emit 0 Close]"
  by (simp add: world0_def key3_def two_peers_def run_defs op_defs value_defs)

section \<open>Invariants of the observable part\<close>

lemma index_ok_run_peer:
  assumes "index_ok v" "t < length (v_topics v)"
  shows "index_ok (a_run_peer t p l v)"
proof (cases l)
  case CallerDestroys
  then show ?thesis using assms by (simp add: index_ok_destroy)
next
  case (OnPeer cb)
  define x where "x = v_topics v ! t"
  define v1 where "v1 = v\<lparr>v_topics := (v_topics v)[t := x\<lparr>tv_on_peer := remove1 (OnPeer cb) (tv_on_peer x),
                     tv_on_close := remove1 (OnClose cb) (tv_on_close x)\<rparr>]\<rparr>"
  have "index_ok v1" unfolding v1_def using assms(1)
    by (subst index_ok_listeners) (simp_all add: x_def)
  moreover have "t < length (v_topics v1)" using assms(2) by (simp add: v1_def)
  ultimately have "index_ok (a_destroy t v1)" by (rule index_ok_destroy)
  then show ?thesis by (simp add: OnPeer Let_def v1_def x_def)
qed

lemma fold_run_peer_length [simp]:
  "length (v_topics (fold (a_run_peer t p) ls v)) = length (v_topics v)"
  by (induction ls arbitrary: v) (simp_all del: a_run_peer.simps)

lemma index_ok_fold_run_peer:
  "index_ok v \<Longrightarrow> t < length (v_topics v) \<Longrightarrow> index_ok (fold (a_run_peer t p) ls v)"
  by (induction ls arbitrary: v) (simp_all add: index_ok_run_peer del: a_run_peer.simps)

lemma index_ok_emit_peer:
  "index_ok v \<Longrightarrow> t < length (v_topics v) \<Longrightarrow> index_ok (a_emit_peer t p v)"
  unfolding a_emit_peer_def by (rule index_ok_fold_run_peer) simp_all

lemma a_session_done_frame [simp]:
  "v_topics (a_session_done v) = v_topics v" "v_domains (a_session_done v) = v_domains v"
  "v_ticks (a_session_done v) = v_ticks v" "v_unannouncing (a_session_done v) = v_unannouncing v"
  "v_destroyed (a_session_done v) = v_destroyed v" "v_tld (a_session_done v) = v_tld v"
  by (simp_all add: a_session_done_def)

lemma a_run_close_frame [simp]:
  "v_topics (a_run_close l v) = v_topics v" "v_domains (a_run_close l v) = v_domains v"
  "v_ticks (a_run_close l v) = v_ticks v" "v_unannouncing (a_run_close l v) = v_unannouncing v"
  "v_destroyed (a_run_close l v) = v_destroyed v" "v_tld (a_run_close l v) = v_tld v"
  by (cases l; simp)+

lemma fold_run_close_frame [simp]:
  "v_topics (fold a_run_close ls v) = v_topics v" "v_domains (fold a_run_close ls v) = v_domains v"
  "v_ticks (fold a_run_close ls v) = v_ticks v"
  "v_unannouncing (fold a_run_close ls v) = v_unannouncing v"
  "v_destroyed (fold a_run_close ls v) = v_destroyed v" "v_tld (fold a_run_close ls v) = v_tld v"
  by (induction ls arbitrary: v) simp_all

lemma a_emit_close_frame [simp]:
  "v_topics (a_emit_close t v) = v_topics v" "v_domains (a_emit_close t v) = v_domains v"
  "v_ticks (a_emit_close t v) = v_ticks v"
  "v_unannouncing (a_emit_close t v) = v_unannouncing v"
  "v_destroyed (a_emit_close t v) = v_destroyed v" "v_tld (a_emit_close t v) = v_tld v"
  by (simp_all add: a_emit_close_def)

lemma index_ok_cong:
  "v_topics v' = v_topics v \<Longrightarrow> v_domains v' = v_domains v \<Longrightarrow> index_ok v' = index_ok v"
  by (simp add: index_ok_def)

lemma a_destroy_one_length [simp]:
  "length (v_topics (a_destroy_one t v)) = length (v_topics v)"
  by (simp add: a_destroy_one_def)

lemma index_ok_destroy_one:
  "index_ok v \<Longrightarrow> t < length (v_topics v) \<Longrightarrow> index_ok (a_destroy_one t v)"
  by (simp add: a_destroy_one_def index_ok_destroy)

lemma fold_destroy_one_length [simp]:
  "length (v_topics (fold a_destroy_one ts v)) = length (v_topics v)"
  by (induction ts arbitrary: v) simp_all

lemma index_ok_fold_destroy_one:
  "index_ok v \<Longrightarrow> \<forall>t \<in> set ts. t < length (v_topics v) \<Longrightarrow> index_ok (fold a_destroy_one ts v)"
  by (induction ts arbitrary: v) (simp_all add: index_ok_destroy_one)

lemma index_members:
  assumes "index_ok v" "t \<in> set (concat (map snd (v_domains v)))"
  shows "t < length (v_topics v)" "\<not> tv_destroyed (v_topics v ! t)"
proof -
  obtain d s where ds: "(d, s) \<in> set (v_domains v)" "t \<in> set s" using assms(2) by auto
  have "map_of (v_domains v) d = Some s" using ds(1) index_okD(1) [OF assms(1)] by simp
  from index_okD(4,5) [OF assms(1) this ds(2)]
  show "t < length (v_topics v)" "\<not> tv_destroyed (v_topics v ! t)" .
qed

lemma index_ok_destroy_all:
  assumes "index_ok v"
  shows "index_ok (a_destroy_all v)"
proof -
  define v0 where "v0 = v\<lparr>v_destroyed := True, v_missing := 1\<rparr>"
  have "index_ok v0" using assms by (simp add: v0_def)
  moreover have "\<forall>t \<in> set (concat (map snd (v_domains v))). t < length (v_topics v0)"
    using index_members(1) [OF assms] by (simp add: v0_def)
  ultimately have "index_ok (fold a_destroy_one (concat (map snd (v_domains v))) v0)"
    by (rule index_ok_fold_destroy_one)
  then show ?thesis by (simp add: a_destroy_all_def Let_def v0_def)
qed

lemma a_trans_index_ok:
  assumes "a_trans C v v'" "index_ok v"
  shows "index_ok v'"
  using assms
proof (induction rule: a_trans.induct)
  case (create v d ann)
  then show ?case using index_ok_create [of v "\<lparr>tv_destroyed = False, tv_domain = d,
      tv_announcing = ann, tv_on_peer = [], tv_on_close = []\<rparr>"] by (simp add: a_create_def)
next
  case (create_one v cb d)
  then show ?case using index_ok_create [of v "\<lparr>tv_destroyed = False, tv_domain = d,
      tv_announcing = False, tv_on_peer = [OnPeer cb], tv_on_close = [OnClose cb]\<rparr>"]
    by (simp add: a_create_def)
next
  case (listen t v)
  then show ?case unfolding a_listen_def by (subst index_ok_listeners) simp_all
next
  case (destroy t v)
  then show ?case by (simp add: index_ok_destroy)
next
  case (destroy_all v)
  then show ?case by (simp add: index_ok_destroy_all)
next
  case (peer t v p)
  then show ?case by (simp add: index_ok_emit_peer)
next
  case (close_tick v t fs)
  then show ?case by (simp add: index_ok_cong [of "a_emit_close t (v\<lparr>v_ticks := fs\<rparr>)" v])
next
  case (close_unannounced t v)
  then show ?case
    by (simp add: index_ok_cong [of "a_emit_close t (v\<lparr>v_unannouncing := remove1 t (v_unannouncing v)\<rparr>)" v])
next
  case (done_tick v fs)
  then show ?case by (simp add: index_ok_cong [of "a_session_done (v\<lparr>v_ticks := fs\<rparr>)" v])
qed

lemma count_list_snoc: "count_list (xs @ [x]) y = count_list xs y + (if x = y then 1 else 0)"
  by (induction xs) auto

lemma closing_okD:
  assumes "closing_ok v"
  shows "t < length (v_topics v) \<Longrightarrow> tv_destroyed (v_topics v ! t) \<Longrightarrow> closes t v + pend t v = 1"
    "\<not> (t < length (v_topics v) \<and> tv_destroyed (v_topics v ! t)) \<Longrightarrow> closes t v = 0 \<and> pend t v = 0"
  using assms [unfolded closing_ok_def, rule_format, of t] by auto

lemma closing_ok_cong:
  assumes "\<And>t. closes t v' = closes t v" "\<And>t. pend t v' = pend t v"
    "length (v_topics v') = length (v_topics v)"
    "\<And>t. t < length (v_topics v) \<Longrightarrow> tv_destroyed (v_topics v' ! t) = tv_destroyed (v_topics v ! t)"
  shows "closing_ok v' = closing_ok v"
proof -
  have "(if t < length (v_topics v') \<and> tv_destroyed (v_topics v' ! t) then 1 else 0 :: nat)
      = (if t < length (v_topics v) \<and> tv_destroyed (v_topics v ! t) then 1 else 0)" for t
    using assms(3) assms(4) [of t] by auto
  then show ?thesis unfolding closing_ok_def assms(1,2) by simp
qed

lemma closing_ok_destroy:
  assumes "closing_ok v" "t < length (v_topics v)"
  shows "closing_ok (a_destroy t v)"
proof (cases "tv_destroyed (v_topics v ! t)")
  case True
  then show ?thesis using assms by (simp add: a_destroy_def)
next
  case False
  have c: "closes u (a_destroy t v) = closes u v" for u by (simp add: closes_def)
  have p: "pend u (a_destroy t v) = pend u v + (if u = t then 1 else 0)" for u
    using False by (simp add: pend_def a_destroy_def Let_def count_list_snoc)
  show ?thesis unfolding closing_ok_def
  proof
    fix u
    show "closes u (a_destroy t v) + pend u (a_destroy t v) =
        (if u < length (v_topics (a_destroy t v)) \<and> tv_destroyed (v_topics (a_destroy t v) ! u)
         then 1 else 0)"
    proof (cases "u = t")
      case True
      then show ?thesis
        using closing_okD(2) [OF assms(1), of t] False assms(2)
        by (simp add: c p a_destroy_destroyed)
    next
      case u: False
      then show ?thesis
        using assms(1) [unfolded closing_ok_def, rule_format, of u] assms(2)
        by (simp add: c p a_destroy_destroyed)
    qed
  qed
qed

lemma closing_ok_listeners:
  assumes "tv_destroyed y = tv_destroyed (v_topics v ! t)"
  shows "closing_ok (v\<lparr>v_topics := (v_topics v)[t := y]\<rparr>) = closing_ok v"
proof (rule closing_ok_cong)
  fix u assume "u < length (v_topics v)"
  then show "tv_destroyed (v_topics (v\<lparr>v_topics := (v_topics v)[t := y]\<rparr>) ! u) = tv_destroyed (v_topics v ! u)"
    using assms by (cases "u = t") simp_all
qed (simp_all add: closes_def pend_def)

lemma closing_ok_say:
  assumes "\<And>t. e \<noteq> Emit t Close"
  shows "closing_ok (v\<lparr>v_trace := v_trace v @ [e]\<rparr>) = closing_ok v"
  by (rule closing_ok_cong) (use assms in \<open>auto simp: closes_def pend_def count_list_snoc\<close>)

lemma closing_ok_missing [simp]: "closing_ok (v\<lparr>v_missing := m\<rparr>) = closing_ok v"
  by (rule closing_ok_cong) (simp_all add: closes_def pend_def)

lemma closing_ok_destroyed [simp]: "closing_ok (v\<lparr>v_destroyed := m\<rparr>) = closing_ok v"
  by (rule closing_ok_cong) (simp_all add: closes_def pend_def)

lemma closing_ok_domains [simp]: "closing_ok (v\<lparr>v_domains := m\<rparr>) = closing_ok v"
  by (rule closing_ok_cong) (simp_all add: closes_def pend_def)

lemma closing_ok_run_peer:
  assumes "closing_ok v" "t < length (v_topics v)"
  shows "closing_ok (a_run_peer t p l v)"
proof (cases l)
  case CallerDestroys
  then show ?thesis using assms by (simp add: closing_ok_destroy)
next
  case (OnPeer cb)
  define x where "x = v_topics v ! t"
  define v1 where "v1 = v\<lparr>v_topics := (v_topics v)[t := x\<lparr>tv_on_peer := remove1 (OnPeer cb) (tv_on_peer x),
                     tv_on_close := remove1 (OnClose cb) (tv_on_close x)\<rparr>]\<rparr>"
  have "closing_ok v1" unfolding v1_def using assms(1)
    by (subst closing_ok_listeners) (simp_all add: x_def)
  moreover have "t < length (v_topics v1)" using assms(2) by (simp add: v1_def)
  ultimately have "closing_ok (a_destroy t v1)" by (rule closing_ok_destroy)
  then have "closing_ok ((a_destroy t v1)\<lparr>v_trace := v_trace (a_destroy t v1) @ [Callback cb (Found p)]\<rparr>)"
    by (subst closing_ok_say) simp_all
  then show ?thesis by (simp add: OnPeer Let_def v1_def x_def)
qed

lemma closing_ok_fold_run_peer:
  "closing_ok v \<Longrightarrow> t < length (v_topics v) \<Longrightarrow> closing_ok (fold (a_run_peer t p) ls v)"
  by (induction ls arbitrary: v) (simp_all add: closing_ok_run_peer del: a_run_peer.simps)

lemma closing_ok_emit_peer:
  assumes "closing_ok v" "t < length (v_topics v)"
  shows "closing_ok (a_emit_peer t p v)"
proof -
  have "closing_ok (v\<lparr>v_trace := v_trace v @ [Emit t (Peer p)]\<rparr>)"
    using assms(1) by (subst closing_ok_say) simp_all
  then show ?thesis unfolding a_emit_peer_def using assms(2)
    by (intro closing_ok_fold_run_peer) simp_all
qed

lemma closing_ok_mark [simp]: "closing_ok (a_mark t v) = closing_ok v"
  unfolding a_mark_def by (rule closing_ok_listeners) simp

lemma closing_ok_destroy_one:
  "closing_ok v \<Longrightarrow> t < length (v_topics v) \<Longrightarrow> closing_ok (a_destroy_one t v)"
  by (simp add: a_destroy_one_def closing_ok_destroy)

lemma closing_ok_fold_destroy_one:
  "closing_ok v \<Longrightarrow> \<forall>t \<in> set ts. t < length (v_topics v) \<Longrightarrow> closing_ok (fold a_destroy_one ts v)"
  by (induction ts arbitrary: v) (simp_all add: closing_ok_destroy_one)

lemma closing_ok_destroy_all:
  assumes "closing_ok v" "index_ok v"
  shows "closing_ok (a_destroy_all v)"
proof -
  define v0 where "v0 = v\<lparr>v_destroyed := True, v_missing := 1\<rparr>"
  define v1 where "v1 = fold a_destroy_one (concat (map snd (v_domains v))) v0"
  have "closing_ok v0" using assms(1) by (simp add: v0_def)
  moreover have "\<forall>t \<in> set (concat (map snd (v_domains v))). t < length (v_topics v0)"
    using index_members(1) [OF assms(2)] by (simp add: v0_def)
  ultimately have "closing_ok v1" unfolding v1_def by (rule closing_ok_fold_destroy_one)
  moreover have "closing_ok (v1\<lparr>v_ticks := v_ticks v1 @ [SessionDone]\<rparr>) = closing_ok v1"
    by (rule closing_ok_cong) (simp_all add: closes_def pend_def count_list_snoc)
  ultimately show ?thesis by (simp add: a_destroy_all_def Let_def v0_def v1_def)
qed

lemma closes_session_done [simp]: "closes t (a_session_done v) = closes t v"
  by (simp add: closes_def a_session_done_def count_list_snoc)

lemma closes_run_close [simp]: "closes t (a_run_close l v) = closes t v"
  by (cases l) (simp_all, simp add: closes_def count_list_snoc)

lemma closes_fold_run_close [simp]: "closes t (fold a_run_close ls v) = closes t v"
  by (induction ls arbitrary: v) simp_all

lemma closes_emit_close:
  "closes u (a_emit_close t v) = closes u v + (if u = t then 1 else 0)"
  by (simp add: a_emit_close_def) (simp add: closes_def count_list_snoc)

lemma pend_frame:
  "v_ticks v' = v_ticks v \<Longrightarrow> v_unannouncing v' = v_unannouncing v \<Longrightarrow> pend t v' = pend t v"
  by (simp add: pend_def)

lemma closing_ok_emit_close:
  assumes "closing_ok v" "pend u v0 = pend u v - (if u = t then 1 else 0)" "pend t v \<ge> 1"
    "v_topics v0 = v_topics v" "v_trace v0 = v_trace v"
  shows "closes u (a_emit_close t v0) + pend u (a_emit_close t v0) =
        (if u < length (v_topics (a_emit_close t v0)) \<and> tv_destroyed (v_topics (a_emit_close t v0) ! u)
         then 1 else 0)"
proof -
  have p: "pend u (a_emit_close t v0) = pend u v0" by (rule pend_frame) simp_all
  have c: "closes u v0 = closes u v" by (simp add: closes_def assms(5))
  show ?thesis
    using assms(1) [unfolded closing_ok_def, rule_format, of u] assms(2,3)
    by (auto simp: p c closes_emit_close assms(4))
qed

lemma closing_ok_create:
  assumes "closing_ok v"
  shows "closing_ok (a_create d ann lp lc v)"
  unfolding closing_ok_def
proof
  fix t
  have c: "closes t (a_create d ann lp lc v) = closes t v" "pend t (a_create d ann lp lc v) = pend t v"
    by (simp_all add: closes_def pend_def a_create_def)
  show "closes t (a_create d ann lp lc v) + pend t (a_create d ann lp lc v) =
      (if t < length (v_topics (a_create d ann lp lc v)) \<and> tv_destroyed (v_topics (a_create d ann lp lc v) ! t)
       then 1 else 0)"
  proof (cases "t < length (v_topics v)")
    case True
    then show ?thesis using assms [unfolded closing_ok_def, rule_format, of t]
      unfolding c by (simp add: a_create_def nth_append)
  next
    case False
    then show ?thesis using assms [unfolded closing_ok_def, rule_format, of t]
      unfolding c by (cases "t = length (v_topics v)") (simp_all add: a_create_def nth_append)
  qed
qed

lemma a_trans_closing_ok:
  assumes "a_trans C v v'" "index_ok v" "closing_ok v"
  shows "closing_ok v'"
  using assms
proof (induction rule: a_trans.induct)
  case (create v d ann)
  then show ?case by (simp add: closing_ok_create)
next
  case (create_one v cb d)
  then show ?case by (simp add: closing_ok_create)
next
  case (listen t v)
  then show ?case unfolding a_listen_def by (subst closing_ok_listeners) simp_all
next
  case (destroy t v)
  then show ?case by (simp add: closing_ok_destroy)
next
  case (destroy_all v)
  then show ?case by (simp add: closing_ok_destroy_all)
next
  case (peer t v p)
  then show ?case by (simp add: closing_ok_emit_peer)
next
  case (close_tick v t fs)
  show ?case unfolding closing_ok_def
  proof
    fix u
    show "closes u (a_emit_close t (v\<lparr>v_ticks := fs\<rparr>)) + pend u (a_emit_close t (v\<lparr>v_ticks := fs\<rparr>)) =
        (if u < length (v_topics (a_emit_close t (v\<lparr>v_ticks := fs\<rparr>)))
            \<and> tv_destroyed (v_topics (a_emit_close t (v\<lparr>v_ticks := fs\<rparr>)) ! u) then 1 else 0)"
      by (rule closing_ok_emit_close [OF close_tick(4)])
         (use close_tick(1) in \<open>auto simp: pend_def\<close>)
  qed
next
  case (close_unannounced t v)
  have "count_list (v_unannouncing v) t \<ge> 1"
    using close_unannounced(1) count_list_0_iff [of "v_unannouncing v" t] by simp
  then show ?case unfolding closing_ok_def
    by (intro allI closing_ok_emit_close [OF close_unannounced(4)])
       (auto simp: pend_def count_list_remove1)
next
  case (done_tick v fs)
  have "closing_ok (a_session_done (v\<lparr>v_ticks := fs\<rparr>)) = closing_ok v"
    by (rule closing_ok_cong) (use done_tick(1) in \<open>simp_all add: pend_def, simp add: closes_def\<close>)
  then show ?case using done_tick by simp
qed

lemma sframe_refl [simp]: "sframe v v"
  by (simp add: sframe_def)

lemma sframe_trans:
  assumes "sframe v1 v2" "sframe v2 v3"
  shows "sframe v1 v3"
proof -
  have l: "length (v_topics v1) \<le> length (v_topics v2)" "length (v_topics v2) \<le> length (v_topics v3)"
    using assms by (simp_all add: sframe_def)
  have b: "u < length (v_topics v2) \<Longrightarrow> dones u v2 = (if u < length (v_topics v1) then dones u v1 else 0)" for u
    using assms(1) by (simp add: sframe_def)
  obtain es where es: "v_trace v2 = v_trace v1 @ es" "SessionClose \<notin> set es"
    "\<forall>u < length (v_topics v1). 0 < dones u v1 \<longrightarrow> Emit u Close \<notin> set es"
    using assms(1) by (auto simp: sframe_def)
  obtain fs where fs: "v_trace v3 = v_trace v2 @ fs" "SessionClose \<notin> set fs"
    "\<forall>u < length (v_topics v2). 0 < dones u v2 \<longrightarrow> Emit u Close \<notin> set fs"
    using assms(2) by (auto simp: sframe_def)
  have "\<forall>u < length (v_topics v1). 0 < dones u v1 \<longrightarrow> Emit u Close \<notin> set fs"
    using fs(3) b l by auto
  then have t: "\<exists>es. v_trace v3 = v_trace v1 @ es \<and> SessionClose \<notin> set es
      \<and> (\<forall>u < length (v_topics v1). 0 < dones u v1 \<longrightarrow> Emit u Close \<notin> set es)"
    by (intro exI [of _ "es @ fs"]) (use es fs in auto)
  have d: "dones u v3 = (if u < length (v_topics v1) then dones u v1 else 0)"
    if "u < length (v_topics v3)" for u
  proof -
    have a: "dones u v3 = (if u < length (v_topics v2) then dones u v2 else 0)"
      using assms(2) that by (simp add: sframe_def)
    show ?thesis using a b l by auto
  qed
  have k: "tv_destroyed (v_topics v3 ! u)"
    if "u < length (v_topics v1)" "tv_destroyed (v_topics v1 ! u)" for u
  proof -
    have "tv_destroyed (v_topics v2 ! u)" using assms(1) that by (simp add: sframe_def)
    moreover have "u < length (v_topics v2)" using that(1) l by simp
    ultimately show ?thesis using assms(2) by (simp add: sframe_def)
  qed
  show ?thesis unfolding sframe_def
    using assms t l d k by (simp add: sframe_def)
qed

lemma sframeI:
  assumes "length (v_topics v') = length (v_topics v)" "v_missing v' = v_missing v"
    "v_destroyed v' = v_destroyed v" "v_trace v' = v_trace v @ es" "SessionClose \<notin> set es"
    "\<And>u. u < length (v_topics v) \<Longrightarrow> 0 < dones u v \<Longrightarrow> Emit u Close \<notin> set es"
    "count_list (v_ticks v') SessionDone = count_list (v_ticks v) SessionDone"
    "\<And>u. u < length (v_topics v) \<Longrightarrow> dones u v' = dones u v"
    "\<And>u. u < length (v_topics v) \<Longrightarrow> tv_destroyed (v_topics v ! u) \<Longrightarrow> tv_destroyed (v_topics v' ! u)"
  shows "sframe v v'"
  unfolding sframe_def using assms by auto

lemma sframe_say:
  assumes "e \<noteq> SessionClose" "\<And>u. u < length (v_topics v) \<Longrightarrow> 0 < dones u v \<Longrightarrow> e \<noteq> Emit u Close"
  shows "sframe v (v\<lparr>v_trace := v_trace v @ [e]\<rparr>)"
  by (rule sframeI [where es = "[e]"]) (use assms in \<open>auto simp add: dones_def\<close>)

lemma sframe_listeners:
  assumes "tv_destroyed y = tv_destroyed (v_topics v ! t)"
    "count_list (tv_on_close y) Done = count_list (tv_on_close (v_topics v ! t)) Done"
  shows "sframe v (v\<lparr>v_topics := (v_topics v)[t := y]\<rparr>)"
proof (rule sframeI [where es = "[]"])
  fix u assume u: "u < length (v_topics v)"
  show "dones u (v\<lparr>v_topics := (v_topics v)[t := y]\<rparr>) = dones u v"
    using assms(2) u by (cases "u = t") (simp_all add: dones_def)
  show "tv_destroyed (v_topics v ! u) \<Longrightarrow> tv_destroyed (v_topics (v\<lparr>v_topics := (v_topics v)[t := y]\<rparr>) ! u)"
    using assms(1) u by (cases "u = t") simp_all
qed simp_all

lemma dones_destroy [simp]: "dones u (a_destroy t v) = dones u v"
  by (simp add: dones_def)

lemma sframe_destroy:
  assumes "t < length (v_topics v)"
  shows "sframe v (a_destroy t v)"
proof (rule sframeI [where es = "[]"])
  show "count_list (v_ticks (a_destroy t v)) SessionDone = count_list (v_ticks v) SessionDone"
    by (simp add: a_destroy_def Let_def count_list_snoc)
  fix u assume "u < length (v_topics v)" "tv_destroyed (v_topics v ! u)"
  then show "tv_destroyed (v_topics (a_destroy t v) ! u)" using assms by (simp add: a_destroy_destroyed)
qed simp_all

lemma count_list_remove1_other: "x \<noteq> y \<Longrightarrow> count_list (remove1 x xs) y = count_list xs y"
  by (simp add: count_list_remove1)

lemma sframe_run_peer:
  assumes "t < length (v_topics v)"
  shows "sframe v (a_run_peer t p l v)"
proof (cases l)
  case CallerDestroys
  then show ?thesis using assms by (simp add: sframe_destroy)
next
  case (OnPeer cb)
  define x where "x = v_topics v ! t"
  define v1 where "v1 = v\<lparr>v_topics := (v_topics v)[t := x\<lparr>tv_on_peer := remove1 (OnPeer cb) (tv_on_peer x),
                     tv_on_close := remove1 (OnClose cb) (tv_on_close x)\<rparr>]\<rparr>"
  have 1: "sframe v v1" unfolding v1_def
    by (rule sframe_listeners) (simp_all add: x_def count_list_remove1_other)
  have "t < length (v_topics v1)" using assms by (simp add: v1_def)
  then have 2: "sframe v1 (a_destroy t v1)" by (rule sframe_destroy)
  have 3: "sframe (a_destroy t v1) ((a_destroy t v1)\<lparr>v_trace := v_trace (a_destroy t v1) @ [Callback cb (Found p)]\<rparr>)"
    by (rule sframe_say) simp_all
  have "sframe v ((a_destroy t v1)\<lparr>v_trace := v_trace (a_destroy t v1) @ [Callback cb (Found p)]\<rparr>)"
    using sframe_trans [OF sframe_trans [OF 1 2] 3] .
  then show ?thesis by (simp add: OnPeer Let_def v1_def x_def)
qed

lemma sframe_fold_run_peer:
  "t < length (v_topics v) \<Longrightarrow> sframe v (fold (a_run_peer t p) ls v)"
proof (induction ls arbitrary: v)
  case Nil
  then show ?case by simp
next
  case (Cons l ls)
  have "t < length (v_topics (a_run_peer t p l v))" using Cons.prems by simp
  from sframe_trans [OF sframe_run_peer [OF Cons.prems] Cons.IH [OF this]]
  show ?case by (simp del: a_run_peer.simps)
qed

lemma sframe_emit_peer:
  assumes "t < length (v_topics v)"
  shows "sframe v (a_emit_peer t p v)"
proof -
  have 1: "sframe v (v\<lparr>v_trace := v_trace v @ [Emit t (Peer p)]\<rparr>)" by (rule sframe_say) simp_all
  have "t < length (v_topics (v\<lparr>v_trace := v_trace v @ [Emit t (Peer p)]\<rparr>))" using assms by simp
  from sframe_trans [OF 1 sframe_fold_run_peer [OF this]]
  show ?thesis by (simp add: a_emit_peer_def)
qed

lemma sframe_create:
  assumes "Done \<notin> set lc"
  shows "sframe v (a_create d ann lp lc v)"
  unfolding sframe_def using assms
  by (auto simp: a_create_def dones_def nth_append count_list_0_iff)

lemma sframe_listen: "sframe v (a_listen t v)"
  unfolding a_listen_def by (rule sframe_listeners) simp_all

lemma sframe_closes:
  assumes "sframe v v'" "u < length (v_topics v)" "0 < dones u v"
  shows "closes u v' = closes u v"
proof -
  obtain es where "v_trace v' = v_trace v @ es"
    "\<forall>u < length (v_topics v). 0 < dones u v \<longrightarrow> Emit u Close \<notin> set es"
    using assms by (auto simp: sframe_def)
  then show ?thesis using assms(2,3) by (simp add: closes_def count_list_0_iff)
qed

lemma sframe_waiting:
  assumes "sframe v v'"
  shows "waiting v' = waiting v"
proof -
  have l: "length (v_topics v) \<le> length (v_topics v')" using assms by (simp add: sframe_def)
  have d: "u < length (v_topics v') \<Longrightarrow> dones u v' = (if u < length (v_topics v) then dones u v else 0)" for u
    using assms by (simp add: sframe_def)
  show ?thesis unfolding waiting_def
    using l d sframe_closes [OF assms] by (auto split: if_splits)
qed

lemma sframe_session_ok:
  assumes "sframe v v'" "session_ok v"
  shows "session_ok v'"
proof -
  have l: "length (v_topics v) \<le> length (v_topics v')" using assms by (simp add: sframe_def)
  have d: "u < length (v_topics v') \<Longrightarrow> dones u v' = (if u < length (v_topics v) then dones u v else 0)" for u
    using assms by (simp add: sframe_def)
  have k: "u < length (v_topics v) \<Longrightarrow> tv_destroyed (v_topics v ! u) \<Longrightarrow> tv_destroyed (v_topics v' ! u)" for u
    using assms by (simp add: sframe_def)
  obtain es where es: "v_trace v' = v_trace v @ es" "SessionClose \<notin> set es"
    using assms by (auto simp: sframe_def)
  have sc: "count_list (v_trace v') SessionClose = count_list (v_trace v) SessionClose"
    "SessionClose \<in> set (v_trace v') \<longleftrightarrow> SessionClose \<in> set (v_trace v)"
    using es by (auto simp: count_list_0_iff)
  have f: "v_missing v' = v_missing v" "v_destroyed v' = v_destroyed v"
    "count_list (v_ticks v') SessionDone = count_list (v_ticks v) SessionDone"
    using assms by (simp_all add: sframe_def)
  have sd: "SessionDone \<in> set (v_ticks v') \<longleftrightarrow> SessionDone \<in> set (v_ticks v)"
    using f(3) count_list_0_iff [of "v_ticks v'" SessionDone] count_list_0_iff [of "v_ticks v" SessionDone]
    by auto
  have m: "dones u v' \<le> 1 \<and> (0 < dones u v' \<longrightarrow> tv_destroyed (v_topics v' ! u))"
    if "u < length (v_topics v')" for u
  proof (cases "u < length (v_topics v)")
    case True
    then show ?thesis using d [OF that] k [of u] assms(2) by (auto simp: session_ok_def)
  next
    case False
    then show ?thesis using d [OF that] by simp
  qed
  have z: "(\<forall>t < length (v_topics v'). dones t v' = 0)" if "\<forall>t < length (v_topics v). dones t v = 0"
    using that d by auto
  show ?thesis
  proof (cases "v_destroyed v")
    case True
    then show ?thesis using assms(2) m
      by (simp add: session_ok_def f sc sframe_waiting [OF assms(1)])
  next
    case False
    then show ?thesis using assms(2) m z
      by (simp add: session_ok_def f sc sd)
  qed
qed

lemma before_close_mono: "before_close es \<subseteq> before_close (es @ fs)"
  unfolding before_close_def by (induction es) auto

lemma before_close_none: "SessionClose \<notin> set es \<Longrightarrow> before_close es = set es"
  unfolding before_close_def by (induction es) auto

lemma sframe_order_ok:
  assumes "sframe v v'" "order_ok v"
  shows "order_ok v'"
  unfolding order_ok_def
proof (intro impI allI)
  fix t assume a: "SessionClose \<in> set (v_trace v')" "t < length (v_topics v')" "0 < dones t v'"
  obtain es where es: "v_trace v' = v_trace v @ es" "SessionClose \<notin> set es"
    using assms by (auto simp: sframe_def)
  have sc: "SessionClose \<in> set (v_trace v)" using a(1) es by auto
  have "dones t v' = (if t < length (v_topics v) then dones t v else 0)"
    using assms(1) a(2) by (simp add: sframe_def)
  then have "t < length (v_topics v) \<and> 0 < dones t v" using a(3) by (auto split: if_splits)
  then have "Emit t Close \<in> before_close (v_trace v)" using assms(2) sc by (simp add: order_ok_def)
  then show "Emit t Close \<in> before_close (v_trace v')"
    unfolding es(1) using before_close_mono by blast
qed

lemma dones_topics: "v_topics v' = v_topics v \<Longrightarrow> dones u v' = dones u v"
  by (simp add: dones_def)

lemma finite_waiting [simp]: "finite (waiting v)"
  by (simp add: waiting_def)

lemma sframe_run_close:
  assumes "l \<noteq> Done"
  shows "sframe v (a_run_close l v)"
proof -
  obtain cb where "l = OnClose cb" using assms by (cases l) auto
  then show ?thesis by (simp add: sframe_say)
qed

lemma sframe_fold_run_close:
  "Done \<notin> set ls \<Longrightarrow> sframe v (fold a_run_close ls v)"
proof (induction ls arbitrary: v)
  case Nil
  then show ?case by simp
next
  case (Cons l ls)
  have "sframe v (a_run_close l v)" using Cons.prems by (intro sframe_run_close) auto
  moreover have "sframe (a_run_close l v) (fold a_run_close ls (a_run_close l v))"
    using Cons.prems by (intro Cons.IH) simp
  ultimately show ?case using sframe_trans by simp
qed

lemma split_single:
  assumes "count_list ls x = 1"
  shows "\<exists>l1 l2. ls = l1 @ x # l2 \<and> x \<notin> set l1 \<and> x \<notin> set l2"
proof -
  have "x \<in> set ls" using assms count_list_0_iff [of ls x] by auto
  then obtain l1 l2 where s: "ls = l1 @ x # l2" "x \<notin> set l1" by (meson split_list_first)
  then have "count_list l2 x = 0" using assms by (simp add: count_list_0_iff)
  then show ?thesis using s by (auto simp: count_list_0_iff)
qed

text \<open>A step that takes one from \<open>missing\<close>, and closes the session when nothing is left.\<close>

lemma session_decrement:
  assumes "session_ok v" "v_destroyed v" "v_topics v2 = v_topics v" "v_destroyed v2"
    "v_missing v2 = v_missing v - 1"
    "v_trace v2 = v_trace v @ es @ (if v_missing v - 1 = 0 then [SessionClose] else [])"
    "SessionClose \<notin> set es"
    "int (card (waiting v2)) + int (count_list (v_ticks v2) SessionDone) = v_missing v - 1"
  shows "session_ok v2" "order_ok v2"
proof -
  have d: "dones u v2 = dones u v" for u by (rule dones_topics) (rule assms(3))
  have pos: "v_missing v \<noteq> 0" using assms(8) by linarith
  then have none: "count_list (v_trace v) SessionClose = 0"
    using assms(1,2) by (simp add: session_ok_def)
  then have nsc: "SessionClose \<notin> set (v_trace v)" by (simp add: count_list_0_iff)
  have c: "count_list (v_trace v2) SessionClose = (if v_missing v2 = 0 then 1 else 0)"
    using none assms(7) by (simp add: assms(5,6) count_list_0_iff)
  show "session_ok v2"
    using assms(1) c unfolding session_ok_def
    by (simp add: assms(3,4,5,8) d)
  show "order_ok v2"
    unfolding order_ok_def
  proof (intro impI allI)
    fix t assume a: "SessionClose \<in> set (v_trace v2)" "t < length (v_topics v2)" "0 < dones t v2"
    have z: "v_missing v - 1 = 0" using a(1) nsc assms(7) by (auto simp: assms(6) split: if_splits)
    have "int (card (waiting v2)) = 0" using assms(8) z by linarith
    then have "waiting v2 = {}" by simp
    then have "closes t v2 \<noteq> 0" using a(2,3) by (auto simp: waiting_def)
    then have "Emit t Close \<in> set (v_trace v2)" by (simp add: closes_def count_list_0_iff)
    then have "Emit t Close \<in> set (v_trace v @ es)" using z by (simp add: assms(6))
    then have "Emit t Close \<in> before_close (v_trace v @ es)"
      using nsc assms(7) by (subst before_close_none) auto
    then show "Emit t Close \<in> before_close (v_trace v2)"
      unfolding assms(6) using before_close_mono [of "v_trace v @ es"] by auto
  qed
qed

lemma sframe_ok:
  assumes "sframe v v'" "session_ok v \<and> order_ok v"
  shows "session_ok v' \<and> order_ok v'"
  using assms sframe_session_ok sframe_order_ok by blast

lemma waiting_close:
  assumes "v_topics v2 = v_topics v" "\<And>u. closes u v2 = closes u v + (if u = t then 1 else 0)"
    "t \<in> waiting v"
  shows "int (card (waiting v2)) = int (card (waiting v)) - 1"
proof -
  have "waiting v2 = waiting v - {t}"
    unfolding waiting_def using assms(2) by (auto simp: assms(1) dones_topics [OF assms(1)])
  then have "card (waiting v2) = card (waiting v) - 1" using assms(3) by simp
  moreover have "card (waiting v) \<ge> 1"
    using assms(3) by (metis One_nat_def Suc_leI card_gt_0_iff empty_iff finite_waiting)
  ultimately show ?thesis by simp
qed

text \<open>The \<open>'close'\<close> event of a Topic.\<close>

lemma emit_close_ok:
  assumes ok: "closing_ok v" "session_ok v" "order_ok v"
    and t: "t < length (v_topics v)" "1 \<le> pend t v"
    and v0: "v_topics v0 = v_topics v" "v_trace v0 = v_trace v" "v_missing v0 = v_missing v"
      "v_destroyed v0 = v_destroyed v"
      "count_list (v_ticks v0) SessionDone = count_list (v_ticks v) SessionDone"
  shows "session_ok (a_emit_close t v0) \<and> order_ok (a_emit_close t v0)"
proof -
  define ls where "ls = tv_on_close (v_topics v ! t)"
  define vA where "vA = v0\<lparr>v_trace := v_trace v0 @ [Emit t Close]\<rparr>"
  have e: "a_emit_close t v0 = fold a_run_close ls vA"
    by (simp add: a_emit_close_def ls_def vA_def v0(1))
  have dt: "tv_destroyed (v_topics v ! t)" "closes t v = 0"
    using ok(1) [unfolded closing_ok_def, rule_format, of t] t by (auto split: if_splits)
  have d1: "dones t v \<le> 1" using ok(2) t(1) by (simp add: session_ok_def)
  show ?thesis
  proof (cases "dones t v = 0")
    case True
    then have nd: "Done \<notin> set ls" by (simp add: dones_def ls_def count_list_0_iff)
    have "sframe v vA"
      by (rule sframeI [where es = "[Emit t Close]"])
         (use True v0 in \<open>auto simp: vA_def dones_def\<close>)
    from sframe_trans [OF this sframe_fold_run_close [OF nd]]
    have "sframe v (a_emit_close t v0)" by (simp add: e)
    then show ?thesis using sframe_ok ok(2,3) by blast
  next
    case False
    then have one: "count_list ls Done = 1" using d1 by (simp add: dones_def ls_def)
    obtain l1 l2 where l: "ls = l1 @ Done # l2" "Done \<notin> set l1" "Done \<notin> set l2"
      using split_single [OF one] by blast
    define v1 where "v1 = fold a_run_close l1 vA"
    define v2 where "v2 = a_session_done v1"
    have e2: "a_emit_close t v0 = fold a_run_close l2 v2"
      by (simp add: e l(1) v1_def v2_def)
    have f1: "sframe vA v1" unfolding v1_def by (rule sframe_fold_run_close) (rule l(2))
    then obtain es where es: "v_trace v1 = v_trace vA @ es" "SessionClose \<notin> set es"
      "\<forall>u < length (v_topics vA). 0 < dones u vA \<longrightarrow> Emit u Close \<notin> set es"
      by (auto simp: sframe_def)
    have m1: "v_missing v1 = v_missing v" using f1 by (simp add: sframe_def vA_def v0)
    have tp1: "v_topics v1 = v_topics v" by (simp add: v1_def vA_def v0)
    have vd: "v_destroyed v"
    proof (rule ccontr)
      assume "\<not> v_destroyed v"
      then have "\<forall>u < length (v_topics v). dones u v = 0" using ok(2) by (simp add: session_ok_def)
      then show False using False t(1) by simp
    qed
    have tw: "t \<in> waiting v" using False dt(2) t(1) by (simp add: waiting_def)
    have tp2: "v_topics v2 = v_topics v" by (simp add: v2_def tp1)
    have tr2: "v_trace v2 = v_trace v @ (Emit t Close # es) @ (if v_missing v - 1 = 0 then [SessionClose] else [])"
      by (simp add: v2_def a_session_done_def es(1) m1) (simp add: vA_def v0)
    have nc: "\<forall>u. Emit u Close \<notin> set es"
    proof
      fix u
      have "fold a_run_close l1 vA = v1" by (simp add: v1_def)
      have "closes u v1 = closes u vA" by (simp add: v1_def)
      then show "Emit u Close \<notin> set es" by (simp add: closes_def es(1) count_list_0_iff)
    qed
    have cl: "closes u v2 = closes u v + (if u = t then 1 else 0)" for u
      using nc by (auto simp: closes_def tr2 count_list_0_iff)
    have tk: "count_list (v_ticks v2) SessionDone = count_list (v_ticks v) SessionDone"
      by (simp add: v2_def v1_def vA_def v0)
    have w: "int (card (waiting v2)) + int (count_list (v_ticks v2) SessionDone) = v_missing v - 1"
      using waiting_close [OF tp2 cl tw] ok(2) vd by (simp add: tk session_ok_def)
    have d2: "v_destroyed v2" using vd by (simp add: v2_def v1_def vA_def v0)
    have m2: "v_missing v2 = v_missing v - 1" by (simp add: v2_def a_session_done_def m1)
    have n2: "SessionClose \<notin> set (Emit t Close # es)" using es(2) by simp
    have "session_ok v2 \<and> order_ok v2"
      using session_decrement [OF ok(2) vd tp2 d2 m2 tr2 n2 w] by simp
    moreover have "sframe v2 (a_emit_close t v0)" unfolding e2 by (rule sframe_fold_run_close) (rule l(3))
    ultimately show ?thesis using sframe_ok by blast
  qed
qed

lemma session_done_ok:
  assumes "session_ok v" "v_ticks v = SessionDone # fs"
  shows "session_ok (a_session_done (v\<lparr>v_ticks := fs\<rparr>))" "order_ok (a_session_done (v\<lparr>v_ticks := fs\<rparr>))"
proof -
  define v2 where "v2 = a_session_done (v\<lparr>v_ticks := fs\<rparr>)"
  have vd: "v_destroyed v" using assms by (auto simp: session_ok_def split: if_splits)
  have tp2: "v_topics v2 = v_topics v" by (simp add: v2_def)
  have tr2: "v_trace v2 = v_trace v @ [] @ (if v_missing v - 1 = 0 then [SessionClose] else [])"
    by (simp add: v2_def a_session_done_def)
  have "waiting v2 = waiting v"
    unfolding waiting_def using tr2 by (auto simp: tp2 dones_topics [OF tp2] closes_def)
  then have w: "int (card (waiting v2)) + int (count_list (v_ticks v2) SessionDone) = v_missing v - 1"
    using assms vd by (simp add: session_ok_def v2_def)
  have d2: "v_destroyed v2" using vd by (simp add: v2_def)
  have m2: "v_missing v2 = v_missing v - 1" by (simp add: v2_def a_session_done_def)
  have "session_ok v2 \<and> order_ok v2"
    using session_decrement [OF assms(1) vd tp2 d2 m2 tr2 _ w] by simp
  then show "session_ok (a_session_done (v\<lparr>v_ticks := fs\<rparr>))" "order_ok (a_session_done (v\<lparr>v_ticks := fs\<rparr>))"
    by (simp_all add: v2_def)
qed

text \<open>\<open>Discovery.destroy\<close>: every Topic of the Domain Index is destroyed and given the
  listener \<open>done\<close>.\<close>

lemma distinct_concat_index:
  assumes "distinct (map fst ds)" "\<forall>(d, s) \<in> set ds. distinct s \<and> (\<forall>t \<in> set s. g t = d)"
  shows "distinct (concat (map snd ds))"
  using assms
proof (induction ds)
  case Nil
  then show ?case by simp
next
  case (Cons x ds)
  obtain d s where x: "x = (d, s)" by (cases x)
  have "set s \<inter> set (concat (map snd ds)) = {}"
  proof (rule ccontr)
    assume "set s \<inter> set (concat (map snd ds)) \<noteq> {}"
    then obtain t d' s' where t: "t \<in> set s" "(d', s') \<in> set ds" "t \<in> set s'" by auto
    have "g t = d" using Cons.prems(2) t(1) x by auto
    moreover have "g t = d'" using Cons.prems(2) t(2,3) by auto
    moreover have "d \<noteq> d'" using Cons.prems(1) t(2) x by force
    ultimately show False by simp
  qed
  moreover have "distinct s" using Cons.prems(2) x by auto
  moreover have "distinct (concat (map snd ds))" using Cons by auto
  ultimately show ?case using x by simp
qed

lemma index_distinct:
  assumes "index_ok v"
  shows "distinct (concat (map snd (v_domains v)))"
proof (rule distinct_concat_index [where g = "\<lambda>t. tv_domain (v_topics v ! t)"])
  show "distinct (map fst (v_domains v))" using index_okD(1) [OF assms] .
  show "\<forall>(d, s) \<in> set (v_domains v). distinct s \<and> (\<forall>t \<in> set s. tv_domain (v_topics v ! t) = d)"
  proof (clarify, intro conjI ballI)
    fix d s assume "(d, s) \<in> set (v_domains v)"
    then have m: "map_of (v_domains v) d = Some s" using index_okD(1) [OF assms] by simp
    show "distinct s" using index_okD(3) [OF assms m] .
    fix t assume "t \<in> set s"
    then show "tv_domain (v_topics v ! t) = d" using index_okD(6) [OF assms m] by simp
  qed
qed

lemma destroy_one_shape:
  assumes "t < length (v_topics v)"
  shows "v_trace (a_destroy_one t v) = v_trace v" "v_destroyed (a_destroy_one t v) = v_destroyed v"
    "v_missing (a_destroy_one t v) = v_missing v + 1"
    "count_list (v_ticks (a_destroy_one t v)) SessionDone = count_list (v_ticks v) SessionDone"
    "u < length (v_topics v) \<Longrightarrow> dones u (a_destroy_one t v) = dones u v + (if u = t then 1 else 0)"
    "u < length (v_topics v) \<Longrightarrow>
       tv_destroyed (v_topics (a_destroy_one t v) ! u) = (tv_destroyed (v_topics v ! u) \<or> u = t)"
proof -
  define v1 where "v1 = a_destroy t (v\<lparr>v_missing := v_missing v + 1\<rparr>)"
  have e: "a_destroy_one t v = a_mark t v1" by (simp add: a_destroy_one_def v1_def)
  have l1: "length (v_topics v1) = length (v_topics v)" by (simp add: v1_def)
  show "v_trace (a_destroy_one t v) = v_trace v" "v_destroyed (a_destroy_one t v) = v_destroyed v"
    "v_missing (a_destroy_one t v) = v_missing v + 1"
    by (simp_all add: e v1_def)
  show "count_list (v_ticks (a_destroy_one t v)) SessionDone = count_list (v_ticks v) SessionDone"
    by (simp add: e v1_def a_destroy_def Let_def count_list_snoc)
  show "dones u (a_destroy_one t v) = dones u v + (if u = t then 1 else 0)" if "u < length (v_topics v)"
  proof -
    have "dones u v1 = dones u v" by (simp add: v1_def) (simp add: dones_def)
    then show ?thesis using that l1 assms
      by (auto simp add: e a_mark_def dones_def nth_list_update count_list_snoc)
  qed
  show "tv_destroyed (v_topics (a_destroy_one t v) ! u) = (tv_destroyed (v_topics v ! u) \<or> u = t)"
    if "u < length (v_topics v)"
  proof -
    have "tv_destroyed (v_topics v1 ! u) = (u = t \<or> tv_destroyed (v_topics v ! u))"
      unfolding v1_def using assms by (subst a_destroy_destroyed) simp_all
    then show ?thesis using that l1 assms
      by (auto simp add: e a_mark_def nth_list_update)
  qed
qed

lemma fold_destroy_one_shape:
  assumes "distinct ts" "\<forall>t \<in> set ts. t < length (v_topics v)"
  shows "v_trace (fold a_destroy_one ts v) = v_trace v
    \<and> v_destroyed (fold a_destroy_one ts v) = v_destroyed v
    \<and> v_missing (fold a_destroy_one ts v) = v_missing v + int (length ts)
    \<and> count_list (v_ticks (fold a_destroy_one ts v)) SessionDone = count_list (v_ticks v) SessionDone
    \<and> (\<forall>u < length (v_topics v).
          dones u (fold a_destroy_one ts v) = dones u v + (if u \<in> set ts then 1 else 0)
          \<and> tv_destroyed (v_topics (fold a_destroy_one ts v) ! u)
              = (tv_destroyed (v_topics v ! u) \<or> u \<in> set ts))"
  using assms
proof (induction ts arbitrary: v)
  case Nil
  then show ?case by simp
next
  case (Cons t ts)
  have t: "t < length (v_topics v)" "t \<notin> set ts" using Cons.prems by simp_all
  note s = destroy_one_shape [OF t(1)]
  have "distinct ts" "\<forall>x \<in> set ts. x < length (v_topics (a_destroy_one t v))"
    using Cons.prems by simp_all
  note ih = Cons.IH [OF this]
  show ?case using ih t(2) by (auto simp: s)
qed

lemma destroy_all_ok:
  assumes "closing_ok v" "session_ok v" "index_ok v" "\<not> v_destroyed v"
  shows "session_ok (a_destroy_all v)" "order_ok (a_destroy_all v)"
proof -
  define ts where "ts = concat (map snd (v_domains v))"
  define v0 where "v0 = v\<lparr>v_destroyed := True, v_missing := 1\<rparr>"
  define v1 where "v1 = fold a_destroy_one ts v0"
  define v' where "v' = v1\<lparr>v_ticks := v_ticks v1 @ [SessionDone]\<rparr>"
  have e: "a_destroy_all v = v'" by (simp add: a_destroy_all_def Let_def ts_def v0_def v1_def v'_def)
  have d: "distinct ts" unfolding ts_def using assms(3) by (rule index_distinct)
  have m: "t < length (v_topics v)" "\<not> tv_destroyed (v_topics v ! t)" if "t \<in> set ts" for t
    using index_members [OF assms(3)] that by (simp_all add: ts_def)
  have m0: "\<forall>t \<in> set ts. t < length (v_topics v0)" using m(1) by (simp add: v0_def)
  note s = fold_destroy_one_shape [OF d m0, folded v1_def]
  have l: "length (v_topics v') = length (v_topics v)" by (simp add: v'_def v1_def v0_def)
  have old: "SessionDone \<notin> set (v_ticks v)" "\<And>t. t < length (v_topics v) \<Longrightarrow> dones t v = 0"
    "SessionClose \<notin> set (v_trace v)"
    using assms(2,4) by (simp_all add: session_ok_def)
  have dn: "dones u v' = (if u \<in> set ts then 1 else 0)" if "u < length (v_topics v)" for u
  proof -
    have "dones u v' = dones u v1" by (simp add: v'_def dones_def)
    moreover have "dones u v0 = dones u v" by (simp add: v0_def dones_def)
    ultimately show ?thesis using s that old(2) [OF that] by (simp add: v0_def)
  qed
  have ds: "tv_destroyed (v_topics v' ! u) = (tv_destroyed (v_topics v ! u) \<or> u \<in> set ts)"
    if "u < length (v_topics v)" for u
    using s that by (simp add: v'_def v0_def)
  have tr: "v_trace v' = v_trace v" using s by (simp add: v'_def v0_def)
  have cl: "closes u v' = 0" if "u \<in> set ts" for u
  proof -
    have "closes u v = 0" using closing_okD(2) [OF assms(1), of u] m(2) [OF that] by simp
    then show ?thesis by (simp add: closes_def tr)
  qed
  have w: "waiting v' = set ts"
    unfolding waiting_def using dn cl m(1) by (auto simp: l split: if_splits)
  have c: "card (waiting v') = length ts" using d by (simp add: w distinct_card)
  have ms: "v_missing v' = 1 + int (length ts)" using s by (simp add: v'_def v0_def)
  have tk: "count_list (v_ticks v') SessionDone = 1"
    using s old(1) by (simp add: v'_def v0_def count_list_snoc count_list_0_iff)
  have vd: "v_destroyed v'" using s by (simp add: v'_def v0_def)
  have "session_ok v'"
    unfolding session_ok_def using dn ds old(3) d
    by (simp add: l vd c ms tk tr count_list_0_iff)
  moreover have "order_ok v'" using old(3) by (simp add: order_ok_def tr)
  ultimately show "session_ok (a_destroy_all v)" "order_ok (a_destroy_all v)" by (simp_all add: e)
qed

lemma a_trans_good:
  assumes "a_trans C v v'" "good v"
  shows "good v'"
proof -
  have i: "index_ok v" and c: "closing_ok v" and s: "session_ok v" and ord: "order_ok v"
    using assms(2) by (simp_all add: good_def)
  have i': "index_ok v'" using a_trans_index_ok [OF assms(1) i] .
  have c': "closing_ok v'" using a_trans_closing_ok [OF assms(1) i c] .
  have "session_ok v' \<and> order_ok v'"
    using assms(1) c s ord i
  proof (induction rule: a_trans.induct)
    case (create v d ann)
    then show ?case using sframe_ok [OF sframe_create [of "[]" v d ann "[]"]] by simp
  next
    case (create_one v cb d)
    then show ?case
      using sframe_ok [OF sframe_create [of "[OnClose cb]" v d False "[OnPeer cb]"]] by simp
  next
    case (listen t v)
    then show ?case using sframe_ok [OF sframe_listen] by blast
  next
    case (destroy t v)
    then show ?case using sframe_ok [OF sframe_destroy] by blast
  next
    case (destroy_all v)
    then show ?case using destroy_all_ok by blast
  next
    case (peer t v p)
    then show ?case using sframe_ok [OF sframe_emit_peer] by blast
  next
    case (close_tick v t fs)
    show ?case
      by (rule emit_close_ok [OF close_tick(3,4,5) close_tick(2)])
         (simp_all add: close_tick(1) pend_def)
  next
    case (close_unannounced t v)
    have "1 \<le> count_list (v_unannouncing v) t"
      using close_unannounced(1) count_list_0_iff [of "v_unannouncing v" t] by simp
    then show ?case
      by (intro emit_close_ok [OF close_unannounced(3,4,5) close_unannounced(2)])
         (simp_all add: pend_def)
  next
    case (done_tick v fs)
    then show ?case using session_done_ok by blast
  qed
  then show ?thesis using i' c' by (simp add: good_def)
qed

lemma rtrancl_good:
  assumes "(a_trans C)\<^sup>*\<^sup>* v v'" "good v"
  shows "good v'"
  using assms by (induction rule: rtranclp_induct) (auto intro: a_trans_good)

section \<open>Closing a session\<close>

lemma good_new_Discovery: "good (view (new_Discovery opts nodes))"
  using sane_new_Discovery [of opts nodes]
  by (simp add: good_def sane_def)
     (simp add: closing_ok_def session_ok_def order_ok_def closes_def pend_def view_def
        new_Discovery_def)

lemma count_list_filter: "count_list (filter P xs) x = (if P x then count_list xs x else 0)"
  by (induction xs) auto

lemma takeWhile_filter:
  "(\<And>x. \<not> P x \<Longrightarrow> Q x) \<Longrightarrow> takeWhile P (filter Q xs) = filter Q (takeWhile P xs)"
  by (induction xs) auto

lemma before_close_loud: "before_close (filter loud es) = {e \<in> before_close es. loud e}"
proof -
  have "takeWhile (\<lambda>e. e \<noteq> SessionClose) (filter loud es)
      = filter loud (takeWhile (\<lambda>e. e \<noteq> SessionClose) es)"
    by (rule takeWhile_filter) auto
  then show ?thesis by (auto simp: before_close_def)
qed

lemma view_trace: "v_trace (view w) = filter loud (trace w)"
  by (simp add: view_def)


lemma sframe_grows: "sframe v v' \<Longrightarrow> grows v v'"
  by (auto simp: sframe_def grows_def)

lemma grows_topics:
  "v_topics v' = v_topics v \<Longrightarrow> v_destroyed v' = v_destroyed v \<Longrightarrow> grows v v'"
  by (simp add: grows_def dones_def)

lemma a_trans_grows:
  assumes "a_trans C v v'" "good v"
  shows "grows v v'"
  using assms
proof (induction rule: a_trans.induct)
  case (create v d ann)
  show ?case by (rule sframe_grows, rule sframe_create) simp
next
  case (create_one v cb d)
  show ?case by (rule sframe_grows, rule sframe_create) simp
next
  case (listen t v)
  show ?case by (rule sframe_grows, rule sframe_listen)
next
  case (destroy t v)
  then show ?case by (intro sframe_grows sframe_destroy)
next
  case (destroy_all v)
  define ts where "ts = concat (map snd (v_domains v))"
  define v0 where "v0 = v\<lparr>v_destroyed := True, v_missing := 1\<rparr>"
  have i: "index_ok v" using destroy_all(2) by (simp add: good_def)
  have d: "distinct ts" unfolding ts_def using i by (rule index_distinct)
  have m0: "\<forall>t \<in> set ts. t < length (v_topics v0)"
    using index_members(1) [OF i] by (simp add: ts_def v0_def)
  note s = fold_destroy_one_shape [OF d m0]
  have e: "a_destroy_all v = (fold a_destroy_one ts v0)\<lparr>v_ticks := v_ticks (fold a_destroy_one ts v0) @ [SessionDone]\<rparr>"
    by (simp add: a_destroy_all_def Let_def ts_def v0_def)
  have "dones t (a_destroy_all v) = dones t (fold a_destroy_one ts v0)" for t
    by (simp add: e dones_def)
  moreover have "dones t v0 = dones t v" for t by (simp add: v0_def dones_def)
  ultimately show ?case using s unfolding grows_def by (simp add: e) (simp add: v0_def)
next
  case (peer t v p)
  then show ?case by (intro sframe_grows sframe_emit_peer)
next
  case (close_tick v t fs)
  show ?case by (rule grows_topics) simp_all
next
  case (close_unannounced t v)
  show ?case by (rule grows_topics) simp_all
next
  case (done_tick v fs)
  show ?case by (rule grows_topics) simp_all
qed

lemma grows_trans: "grows v1 v2 \<Longrightarrow> grows v2 v3 \<Longrightarrow> grows v1 v3"
  unfolding grows_def by (meson le_trans less_le_trans)

lemma rtrancl_grows:
  assumes "(a_trans C)\<^sup>*\<^sup>* v v'" "good v"
  shows "grows v v'"
  using assms
proof (induction rule: rtranclp_induct)
  case base
  show ?case by (simp add: grows_def)
next
  case (step y z)
  have "good y" using rtrancl_good [OF step(1) step(4)] .
  from grows_trans [OF step(3) [OF step(4)] a_trans_grows [OF step(2) this]] show ?case .
qed

text \<open>A run from a new session.\<close>

lemma run_good:
  assumes "sane w" "good (view w)"
  shows "\<exists>w'. run is w = Inr w' \<and> sane w' \<and> good (view w') \<and> grows (view w) (view w')"
proof -
  obtain w' where w': "run is w = Inr w'" "sane w'" "(a_trans UNIV)\<^sup>*\<^sup>* (view w) (view w')"
    using run_sim [OF assms(1), of "is" UNIV] by auto
  show ?thesis using w'(1,2) rtrancl_good [OF w'(3) assms(2)] rtrancl_grows [OF w'(3) assms(2)]
    by blast
qed

lemma destroy_all_shape:
  assumes "index_ok v"
  shows "v_trace (a_destroy_all v) = v_trace v" "v_destroyed (a_destroy_all v)"
    "v_ticks (a_destroy_all v) \<noteq> []" "last (v_ticks (a_destroy_all v)) = SessionDone"
    "length (v_topics (a_destroy_all v)) = length (v_topics v)"
    "t < length (v_topics v) \<Longrightarrow> \<not> tv_destroyed (v_topics v ! t) \<Longrightarrow> 0 < dones t (a_destroy_all v)"
proof -
  define ts where "ts = concat (map snd (v_domains v))"
  define v0 where "v0 = v\<lparr>v_destroyed := True, v_missing := 1\<rparr>"
  have d: "distinct ts" unfolding ts_def using assms by (rule index_distinct)
  have m0: "\<forall>t \<in> set ts. t < length (v_topics v0)"
    using index_members(1) [OF assms] by (simp add: ts_def v0_def)
  note s = fold_destroy_one_shape [OF d m0]
  have e: "a_destroy_all v = (fold a_destroy_one ts v0)\<lparr>v_ticks := v_ticks (fold a_destroy_one ts v0) @ [SessionDone]\<rparr>"
    by (simp add: a_destroy_all_def Let_def ts_def v0_def)
  show "v_trace (a_destroy_all v) = v_trace v" "v_destroyed (a_destroy_all v)"
    using s by (simp_all add: e v0_def)
  show "v_ticks (a_destroy_all v) \<noteq> []" "last (v_ticks (a_destroy_all v)) = SessionDone"
    "length (v_topics (a_destroy_all v)) = length (v_topics v)"
    by (simp_all add: e v0_def)
  show "0 < dones t (a_destroy_all v)" if t: "t < length (v_topics v)" "\<not> tv_destroyed (v_topics v ! t)"
  proof -
    obtain s' where "map_of (v_domains v) (tv_domain (v_topics v ! t)) = Some s'" "t \<in> set s'"
      using index_okD(7) [OF assms t] by blast
    then have "t \<in> set ts" unfolding ts_def by (auto dest!: map_of_SomeD intro!: bexI)
    moreover have "dones t (a_destroy_all v) = dones t (fold a_destroy_one ts v0)"
      by (simp add: e dones_def)
    ultimately show ?thesis using s t(1) by (simp add: v0_def)
  qed
qed

lemma destroy_marks:
  assumes "sane w" "good (view w)" "\<not> destroyed w"
  shows "\<exists>w'. step Destroy w = Inr w' \<and> sane w' \<and> good (view w') \<and> destroyed w'
    \<and> SessionClose \<notin> set (trace w')
    \<and> ticks w' \<noteq> [] \<and> last (ticks w') = SessionDone
    \<and> length (topics w') = length (topics w)
    \<and> (\<forall>t < length (topics w). \<not> t_destroyed (topics w ! t) \<longrightarrow> 0 < dones t (view w'))"
proof -
  obtain w' where w': "discovery_destroy w = Inr w'" "view w' = a_destroy_all (view w)" "sane w'"
    using discovery_destroy_sim [OF assms(1,3)] by blast
  have "a_trans UNIV (view w) (view w')"
    unfolding w'(2) by (rule a_trans.destroy_all) (simp add: assms(3))
  then have g: "good (view w')" using a_trans_good assms(2) by blast
  have i: "index_ok (view w)" using assms(2) by (simp add: good_def)
  note s = destroy_all_shape [OF i, folded w'(2)]
  have "SessionClose \<notin> set (v_trace (view w))"
    using assms(2,3) by (simp add: good_def session_ok_def)
  then have "SessionClose \<notin> set (filter loud (trace w'))" using s(1) by (simp add: view_trace)
  then have 1: "SessionClose \<notin> set (trace w')" by simp
  have 2: "destroyed w'" "ticks w' \<noteq> []" "last (ticks w') = SessionDone"
    "length (topics w') = length (topics w)"
    using s(2-5) by simp_all
  have 3: "0 < dones t (view w')" if "t < length (topics w)" "\<not> t_destroyed (topics w ! t)" for t
    using s(6) [of t] that by simp
  show ?thesis using w'(1,3) g 1 2 3 by auto
qed

lemma final_closed:
  assumes "good (view w)" "destroyed w" "ticks w = []" "unannouncing w = []"
  shows "SessionClose \<in> set (trace w)"
proof -
  define v where "v = view w"
  have c: "closing_ok v" and s: "session_ok v" using assms(1) by (simp_all add: good_def v_def)
  have p: "pend t v = 0" for t using assms(3,4) by (simp add: pend_def v_def)
  have "waiting v = {}"
  proof (rule ccontr)
    assume "waiting v \<noteq> {}"
    then obtain t where t: "t < length (v_topics v)" "0 < dones t v" "closes t v = 0"
      by (auto simp: waiting_def)
    then have "tv_destroyed (v_topics v ! t)" using s by (simp add: session_ok_def)
    from closing_okD(1) [OF c t(1) this] show False using p t(3) by simp
  qed
  then have "v_missing v = 0" using s assms(2,3) by (simp add: session_ok_def v_def)
  then have "count_list (v_trace v) SessionClose = 1" using s assms(2) by (simp add: session_ok_def v_def)
  then have "SessionClose \<in> set (v_trace v)" using count_list_0_iff [of "v_trace v" SessionClose] by simp
  then show ?thesis by (simp add: v_def view_trace)
qed

lemma closed_once:
  assumes "good (view w)"
  shows "count_list (trace w) SessionClose \<le> 1"
proof -
  have "count_list (v_trace (view w)) SessionClose \<le> 1"
    using assms by (auto simp: good_def session_ok_def count_list_0_iff split: if_splits)
  then show ?thesis by (simp add: view_trace count_list_filter)
qed

lemma closed_in_order:
  assumes "good (view w)" "SessionClose \<in> set (trace w)" "t < length (topics w)" "0 < dones t (view w)"
  shows "Emit t Close \<in> before_close (trace w)"
proof -
  have "order_ok (view w)" using assms(1) by (simp add: good_def)
  moreover have "SessionClose \<in> set (v_trace (view w))" using assms(2) by (simp add: view_trace)
  ultimately have "Emit t Close \<in> before_close (v_trace (view w))"
    using assms(3,4) by (simp add: order_ok_def)
  then show ?thesis by (simp add: view_trace before_close_loud)
qed

text \<open>
  Claim C1, the counterexample. An announcing Topic is destroyed by its owner; the session is
  destroyed while \<open>dht.unannounce\<close> has not called back. The Topic is no longer in the Domain
  Index, \<open>Discovery.destroy\<close> does not wait for it, and the session emits \<open>'close'\<close> at the
  next tick, before the Topic emits its own.
\<close>

theorem session_close_before_topic_close:
  "case run [Announce key3 announce4000 [1], TopicDestroy 0, Destroy, Tick, Unannounced 0] world0 of
     Inl e \<Rightarrow> False
   | Inr w \<Rightarrow>
       filter loud (trace w) = [SessionClose, Emit 0 Close]
       \<and> SessionClose \<in> set (trace w) \<and> Emit 0 Close \<notin> before_close (trace w)"
  by (simp add: world0_def key3_def announce4000_def before_close_def run_defs op_defs value_defs)

text \<open>
  Claim C1, amended. \<open>destroy()\<close> on a session that is not destroyed emits nothing at once:
  it queues \<open>done\<close> for the next tick, also when no Topic is live. After any further inputs the
  session has emitted \<open>'close'\<close> at most once; it has emitted it when no tick and no
  \<open>unannounce\<close> is pending any more; and when it has, every Topic that was live (not destroyed)
  when \<open>destroy()\<close> was called has emitted its own \<open>'close'\<close> before.
\<close>

theorem session_close_after_live_topics:
  "\<exists>w1. run is1 (new_Discovery opts nodes) = Inr w1 \<and>
     (\<not> destroyed w1 \<longrightarrow>
        (\<exists>w2 w. step Destroy w1 = Inr w2 \<and> run is2 w2 = Inr w
           \<and> destroyed w2 \<and> SessionClose \<notin> set (trace w2)
           \<and> ticks w2 \<noteq> [] \<and> last (ticks w2) = SessionDone
           \<and> count_list (trace w) SessionClose \<le> 1
           \<and> (ticks w = [] \<and> unannouncing w = [] \<longrightarrow> SessionClose \<in> set (trace w))
           \<and> (SessionClose \<in> set (trace w) \<longrightarrow>
                (\<forall>t < length (topics w1). \<not> t_destroyed (topics w1 ! t) \<longrightarrow>
                   Emit t Close \<in> before_close (trace w)))))"
proof -
  obtain w1 where w1: "run is1 (new_Discovery opts nodes) = Inr w1" "sane w1" "good (view w1)"
    using run_good [OF sane_new_Discovery good_new_Discovery] by blast
  have "\<exists>w2 w. step Destroy w1 = Inr w2 \<and> run is2 w2 = Inr w
           \<and> destroyed w2 \<and> SessionClose \<notin> set (trace w2)
           \<and> ticks w2 \<noteq> [] \<and> last (ticks w2) = SessionDone
           \<and> count_list (trace w) SessionClose \<le> 1
           \<and> (ticks w = [] \<and> unannouncing w = [] \<longrightarrow> SessionClose \<in> set (trace w))
           \<and> (SessionClose \<in> set (trace w) \<longrightarrow>
                (\<forall>t < length (topics w1). \<not> t_destroyed (topics w1 ! t) \<longrightarrow>
                   Emit t Close \<in> before_close (trace w)))"
    if nd: "\<not> destroyed w1"
  proof -
    obtain w2 where w2: "step Destroy w1 = Inr w2" "sane w2" "good (view w2)" "destroyed w2"
      "SessionClose \<notin> set (trace w2)" "ticks w2 \<noteq> []" "last (ticks w2) = SessionDone"
      "length (topics w2) = length (topics w1)"
      "\<And>t. t < length (topics w1) \<Longrightarrow> \<not> t_destroyed (topics w1 ! t) \<Longrightarrow> 0 < dones t (view w2)"
      using destroy_marks [OF w1(2,3) nd] by blast
    obtain w where w: "run is2 w2 = Inr w" "sane w" "good (view w)" "grows (view w2) (view w)"
      using run_good [OF w2(2,3)] by blast
    have d: "destroyed w" using w(4) w2(4) by (simp add: grows_def)
    have l: "length (topics w2) \<le> length (topics w)" using w(4) by (simp add: grows_def)
    have m: "0 < dones t (view w)" if "t < length (topics w1)" "\<not> t_destroyed (topics w1 ! t)" for t
    proof -
      have "dones t (view w2) \<le> dones t (view w)" using w(4) that(1) w2(8) by (simp add: grows_def)
      then show ?thesis using w2(9) [OF that] by simp
    qed
    have o: "Emit t Close \<in> before_close (trace w)"
      if "SessionClose \<in> set (trace w)" "t < length (topics w1)" "\<not> t_destroyed (topics w1 ! t)" for t
      using closed_in_order [OF w(3) that(1) _ m [OF that(2,3)]] that(2) l w2(8) by simp
    have f: "ticks w = [] \<and> unannouncing w = [] \<longrightarrow> SessionClose \<in> set (trace w)"
      using final_closed [OF w(3) d] by simp
    show ?thesis using w2(1,4-7) w(1) closed_once [OF w(3)] f o by blast
  qed
  then show ?thesis using w1(1) by blast
qed

lemma run_session_close:
  "case run [Announce key3 announce4000 [1], Lookup key3 [2]] world0 of
     Inl e \<Rightarrow> False
   | Inr w1 \<Rightarrow>
       \<not> destroyed w1 \<and> length (topics w1) = 2
       \<and> \<not> t_destroyed (topics w1 ! 0) \<and> \<not> t_destroyed (topics w1 ! 1)
       \<and> (case step Destroy w1 of
            Inl e \<Rightarrow> False
          | Inr w2 \<Rightarrow>
              (case run [Tick, Tick, Unannounced 0] w2 of
                 Inl e \<Rightarrow> False
               | Inr w \<Rightarrow> ticks w = [] \<and> unannouncing w = []
                    \<and> filter loud (trace w) = [Emit 1 Close, Emit 0 Close, SessionClose]))"
  by (simp add: world0_def key3_def announce4000_def run_defs op_defs value_defs)

theorem session_close_after_live_topics_witness:
  "\<exists>w1 w2 w. run [Announce key3 announce4000 [1], Lookup key3 [2]] world0 = Inr w1
     \<and> step Destroy w1 = Inr w2 \<and> run [Tick, Tick, Unannounced 0] w2 = Inr w
     \<and> \<not> destroyed w1 \<and> \<not> t_destroyed (topics w1 ! 0) \<and> \<not> t_destroyed (topics w1 ! 1)
     \<and> SessionClose \<notin> set (trace w2) \<and> last (ticks w2) = SessionDone
     \<and> ticks w = [] \<and> unannouncing w = []
     \<and> SessionClose \<in> set (trace w) \<and> count_list (trace w) SessionClose \<le> 1
     \<and> Emit 0 Close \<in> before_close (trace w) \<and> Emit 1 Close \<in> before_close (trace w)"
proof -
  obtain w1 where w1: "run [Announce key3 announce4000 [1], Lookup key3 [2]] world0 = Inr w1"
    and r: "\<not> destroyed w1 \<longrightarrow>
        (\<exists>w2 w. step Destroy w1 = Inr w2 \<and> run [Tick, Tick, Unannounced 0] w2 = Inr w
           \<and> destroyed w2 \<and> SessionClose \<notin> set (trace w2)
           \<and> ticks w2 \<noteq> [] \<and> last (ticks w2) = SessionDone
           \<and> count_list (trace w) SessionClose \<le> 1
           \<and> (ticks w = [] \<and> unannouncing w = [] \<longrightarrow> SessionClose \<in> set (trace w))
           \<and> (SessionClose \<in> set (trace w) \<longrightarrow>
                (\<forall>t < length (topics w1). \<not> t_destroyed (topics w1 ! t) \<longrightarrow>
                   Emit t Close \<in> before_close (trace w))))"
    using session_close_after_live_topics [of "[Announce key3 announce4000 [1], Lookup key3 [2]]"
        None "[''n1'', ''n2'']" "[Tick, Tick, Unannounced 0]"]
    unfolding world0_def by blast
  have e1: "\<not> destroyed w1" "length (topics w1) = 2"
    "\<not> t_destroyed (topics w1 ! 0)" "\<not> t_destroyed (topics w1 ! 1)"
    using run_session_close unfolding w1 by simp_all
  obtain w2 w where w2: "step Destroy w1 = Inr w2" "run [Tick, Tick, Unannounced 0] w2 = Inr w"
    "SessionClose \<notin> set (trace w2)" "last (ticks w2) = SessionDone"
    "count_list (trace w) SessionClose \<le> 1"
    "ticks w = [] \<and> unannouncing w = [] \<longrightarrow> SessionClose \<in> set (trace w)"
    "SessionClose \<in> set (trace w) \<longrightarrow>
                (\<forall>t < length (topics w1). \<not> t_destroyed (topics w1 ! t) \<longrightarrow>
                   Emit t Close \<in> before_close (trace w))"
    using r e1(1) by blast
  have e2: "ticks w = []" "unannouncing w = []"
    using run_session_close unfolding w1 sum.case w2(1) w2(2) by simp_all
  have c: "SessionClose \<in> set (trace w)" using w2(6) e2 by simp
  have "Emit 0 Close \<in> before_close (trace w)" "Emit 1 Close \<in> before_close (trace w)"
    using w2(7) c e1 by simp_all
  then show ?thesis using w1 w2(1-5) e1 e2 c by blast
qed

section \<open>The callback of \<open>lookupOne\<close>\<close>

lemma calls_of_simps [simp]:
  "calls_of cb [] = []" "calls_of cb (e # es) = call_of cb e @ calls_of cb es"
  "calls_of cb (es @ fs) = calls_of cb es @ calls_of cb fs"
  by (simp_all add: calls_of_def)

lemma peers_of_simps [simp]:
  "peers_of t [] = []" "peers_of t (e # es) = peer_of t e @ peers_of t es"
  "peers_of t (es @ fs) = peers_of t es @ peers_of t fs"
  by (simp_all add: peers_of_def)





lemma lframe_refl [simp]: "lframe t cb v v"
  by (simp add: lframe_def)


















lemma np_topics: "v_topics v' = v_topics v \<Longrightarrow> np cb u v' = np cb u v"
  by (simp add: np_def)

lemma nc_topics: "v_topics v' = v_topics v \<Longrightarrow> nc cb u v' = nc cb u v"
  by (simp add: nc_def)

























end
